theory Spec2Isabelle
  imports Main "HOL-Library.Multiset"
begin

section \<open>Errors and results\<close>

text \<open>
  \<open>message\<close> is the error string that \<open>__regex_correct\<close> returns, with the
  position it formats into the string; the last message has none. \<open>py_error\<close> lists
  the Python exceptions the modelled code can raise: \<open>Empty_regex\<close> and
  \<open>Regex_invalid\<close> are the two \<open>ValueError\<close>s of \<open>RegexIterator\<close>,
  \<open>Epsilon_cycle\<close> the \<open>Exception\<close> of \<open>build_from_regex\<close>. A computation that may also fail to
  return (the epsilon closure loops forever on an epsilon cycle) has a result of type
  \<open>'a result\<close>: \<open>None\<close> when it never returns, \<open>Some (Inl e)\<close> when it raises
  \<open>e\<close>, \<open>Some (Inr v)\<close> when it returns \<open>v\<close>.
\<close>

datatype message =
    Invalid_symbol_in_square int
  | Invalid_symbol int
  | Empty_round int
  | Empty_square int
  | Backslash_not_followed int
  | Repetition_meta int
  | Invalid_use int
  | Not_enclosed

datatype py_error =
    KeyError
  | IndexError
  | TypeError
  | ValueError
  | Empty_regex
  | Regex_invalid message
  | Exception
  | Epsilon_cycle

type_synonym 'a result = "(py_error + 'a) option"

definition bind_result :: "'a result \<Rightarrow> ('a \<Rightarrow> 'b result) \<Rightarrow> 'b result" where
  "bind_result r f =
     (case r of None \<Rightarrow> None | Some (Inl e) \<Rightarrow> Some (Inl e) | Some (Inr v) \<Rightarrow> f v)"

section \<open>valid\_characters.py\<close>

text \<open>
  Labels and input symbols are Python strings: the empty string (epsilon), one character,
  or a two-character class marker such as \<open>\d\<close>. The sets of the source are sets of
  one-character strings.
\<close>

type_synonym label = string

definition one_char_strings :: "string \<Rightarrow> label set" where
  "one_char_strings s = set (map (\<lambda>c. [c]) s)"

definition digits :: string where
  "digits = ''0123456789''"

definition ascii_letters :: string where
  "ascii_letters = ''abcdefghijklmnopqrstuvwxyzABCDEFGHIJKLMNOPQRSTUVWXYZ''"

definition SPACE :: label where "SPACE = '' ''"
definition ANY_SYMBOL :: label where "ANY_SYMBOL = ''.''"

definition DIGITS_SET :: "label set" where
  "DIGITS_SET = one_char_strings digits"

definition ASCII_SET :: "label set" where
  "ASCII_SET = one_char_strings ascii_letters"

definition VALID_SYMBOLS :: "label set" where
  "VALID_SYMBOLS = ASCII_SET \<union> DIGITS_SET \<union> {SPACE, ANY_SYMBOL}"

definition PARENTHESES :: "label set" where
  "PARENTHESES = one_char_strings ''()'' \<union> one_char_strings ''[]''"

definition KLEENE_CLOSURE :: label where "KLEENE_CLOSURE = ''*''"
definition ONE_OR_NONE :: label where "ONE_OR_NONE = ''?''"
definition ONE_CLOSURE :: label where "ONE_CLOSURE = ''+''"

definition META_SYMBOLS :: "label set" where
  "META_SYMBOLS = {KLEENE_CLOSURE, ONE_OR_NONE, ONE_CLOSURE}"

definition BACK_SLASH :: label where "BACK_SLASH = [CHR 0x5C]"
definition DIGITS_CLASS :: label where "DIGITS_CLASS = [CHR 0x5C, CHR ''d'']"
definition WORD_CLASS :: label where "WORD_CLASS = [CHR 0x5C, CHR ''w'']"
definition ALPHA_CLASS :: label where "ALPHA_CLASS = [CHR 0x5C, CHR ''a'']"

definition CLASS_SYMBOLS :: "label set" where
  "CLASS_SYMBOLS = {''d'', ''w'', ''a''}"

definition ALL_SYMBOLS :: "label set" where
  "ALL_SYMBOLS =
     VALID_SYMBOLS \<union> PARENTHESES \<union> META_SYMBOLS \<union> CLASS_SYMBOLS \<union> {BACK_SLASH, ANY_SYMBOL}"

definition STD_EPSILON :: label where "STD_EPSILON = ''?''"
definition STD_SUM :: label where "STD_SUM = ''+''"
definition STD_KLEENE :: label where "STD_KLEENE = ''*''"

text \<open>Python's \<open>sub in s\<close> on two strings: \<open>sub\<close> occurs in \<open>s\<close> as a substring.\<close>

fun starts_with :: "string \<Rightarrow> string \<Rightarrow> bool" where
  "starts_with s [] = True"
| "starts_with [] (c # cs) = False"
| "starts_with (x # xs) (c # cs) = (x = c \<and> starts_with xs cs)"

fun str_in :: "string \<Rightarrow> string \<Rightarrow> bool" where
  "str_in sub [] = (sub = [])"
| "str_in sub (x # xs) = (starts_with (x # xs) sub \<or> str_in sub xs)"

section \<open>Python dictionaries\<close>

text \<open>
  A \<open>dict\<close> keeps its keys in insertion order: an association list. Assigning to a
  key that is present replaces the value where it stands; a new key goes to the end.
\<close>

type_synonym ('k, 'v) dict = "('k \<times> 'v) list"

definition dict_get :: "('k, 'v) dict \<Rightarrow> 'k \<Rightarrow> 'v option" where
  "dict_get d k = map_of d k"

definition dict_in :: "'k \<Rightarrow> ('k, 'v) dict \<Rightarrow> bool" where
  "dict_in k d = (map_of d k \<noteq> None)"

definition dict_keys :: "('k, 'v) dict \<Rightarrow> 'k list" where
  "dict_keys d = map fst d"

fun dict_set :: "('k, 'v) dict \<Rightarrow> 'k \<Rightarrow> 'v \<Rightarrow> ('k, 'v) dict" where
  "dict_set [] k v = [(k, v)]"
| "dict_set ((k', v') # d) k v =
     (if k' = k then (k, v) # d else (k', v') # dict_set d k v)"

section \<open>Python sequences\<close>

text \<open>
  Indexing \<open>xs[k]\<close> raises \<open>IndexError\<close> out of range and counts a negative index
  from the end; a slice clamps its bounds instead.
\<close>

definition py_index :: "'a list \<Rightarrow> int \<Rightarrow> py_error + 'a" where
  "py_index xs k =
     (let n = int (length xs); j = (if k < 0 then n + k else k)
      in if 0 \<le> j \<and> j < n then Inr (xs ! nat j) else Inl IndexError)"

definition slice_bound :: "nat \<Rightarrow> int \<Rightarrow> nat" where
  "slice_bound n k = (if k < 0 then nat (max 0 (int n + k)) else min (nat k) n)"

definition py_slice :: "'a list \<Rightarrow> int \<Rightarrow> int \<Rightarrow> 'a list" where
  "py_slice xs a b =
     (let lo = slice_bound (length xs) a; hi = slice_bound (length xs) b
      in take (hi - lo) (drop lo xs))"

definition py_slice_from :: "'a list \<Rightarrow> int \<Rightarrow> 'a list" where
  "py_slice_from xs a = drop (slice_bound (length xs) a) xs"

definition py_slice_to :: "'a list \<Rightarrow> int \<Rightarrow> 'a list" where
  "py_slice_to xs b = take (slice_bound (length xs) b) xs"

definition len :: "'a list \<Rightarrow> int" where
  "len xs = int (length xs)"

text \<open>\<open>sep.join(list(s))\<close>: the characters of \<open>s\<close> with \<open>sep\<close> between them.\<close>

fun join_chars :: "string \<Rightarrow> string \<Rightarrow> string" where
  "join_chars sep [] = []"
| "join_chars sep [c] = [c]"
| "join_chars sep (c # cs) = c # sep @ join_chars sep cs"

section \<open>regex\_iterator.py: validation\<close>

record check_state =
  parentheses_round :: int
  parentheses_square :: int
  in_square :: bool
  round_empty :: bool
  square_empty :: bool

text \<open>
  The loop of \<open>__regex_correct\<close> over \<open>enumerate(regex)\<close>: \<open>i\<close> is the index of the
  first of the remaining characters. The result is the pair the source returns.
\<close>

fun regex_correct_loop :: "string \<Rightarrow> nat \<Rightarrow> string \<Rightarrow> check_state \<Rightarrow> bool \<times> message" where
  "regex_correct_loop regex i [] st =
     (parentheses_square st = parentheses_round st \<and> parentheses_round st = 0, Not_enclosed)"
| "regex_correct_loop regex i (c # rest) st =
     (let letter = [c];
          st = (if round_empty st \<and> letter \<noteq> '')'' then st\<lparr>round_empty := False\<rparr> else st);
          st = (if square_empty st \<and> letter \<noteq> '']'' then st\<lparr>square_empty := False\<rparr> else st)
      in if in_square st \<and> letter \<notin> VALID_SYMBOLS \<and> letter \<noteq> '']'' then
           (False, Invalid_symbol_in_square (int i))
         else if letter \<notin> ALL_SYMBOLS then (False, Invalid_symbol (int i))
         else
           let st = (if letter = ''('' then
                       st\<lparr>round_empty := True, parentheses_round := parentheses_round st + 1\<rparr>
                     else st)
           in if letter = '')'' \<and> round_empty st then (False, Empty_round (int i - 1))
         else
           let st = (if letter = '')'' then
                       st\<lparr>parentheses_round := parentheses_round st - 1\<rparr>
                     else st);
               st = (if letter = ''['' then
                       st\<lparr>square_empty := True, in_square := True,
                          parentheses_square := parentheses_square st + 1\<rparr>
                     else st)
           in if letter = '']'' \<and> square_empty st then (False, Empty_square (int i - 1))
         else
           let st = (if letter = '']'' then
                       st\<lparr>in_square := False, parentheses_square := parentheses_square st - 1\<rparr>
                     else st)
           in if letter = BACK_SLASH \<and>
                 (length regex = i + 1 \<or> [regex ! (i + 1)] \<notin> CLASS_SYMBOLS) then
                (False, Backslash_not_followed (int i))
         else if letter \<noteq> BACK_SLASH \<and> letter \<in> META_SYMBOLS \<and>
                 ((length regex \<noteq> i + 1 \<and> [regex ! (i + 1)] \<in> META_SYMBOLS) \<or> i = 0) then
                (False, Repetition_meta (int i))
         else if letter \<in> META_SYMBOLS \<and> i > 0 \<and>
                 ([regex ! (i - 1)] \<notin> VALID_SYMBOLS \<and> [regex ! (i - 1)] \<noteq> '')'' \<and>
                  [regex ! (i - 1)] \<noteq> '']'') then
                (False, Invalid_use (int i))
         else regex_correct_loop regex (i + 1) rest st)"

definition regex_correct :: "string \<Rightarrow> bool \<times> message" where
  "regex_correct regex =
     regex_correct_loop regex 0 regex
       \<lparr>parentheses_round = 0, parentheses_square = 0, in_square = False,
        round_empty = False, square_empty = False\<rparr>"

text \<open>The position a message carries, if it carries one.\<close>

fun message_pos :: "message \<Rightarrow> int option" where
  "message_pos (Invalid_symbol_in_square p) = Some p"
| "message_pos (Invalid_symbol p) = Some p"
| "message_pos (Empty_round p) = Some p"
| "message_pos (Empty_square p) = Some p"
| "message_pos (Backslash_not_followed p) = Some p"
| "message_pos (Repetition_meta p) = Some p"
| "message_pos (Invalid_use p) = Some p"
| "message_pos Not_enclosed = None"

section \<open>regex\_iterator.py: conversion to a standard regular expression\<close>

text \<open>\<open>while (text[j] != ']'): j += 1\<close>, which ends with \<open>IndexError\<close> at the end of
  the text.\<close>

function find_square_end :: "string \<Rightarrow> int \<Rightarrow> py_error + int" where
  "find_square_end text j =
     (case py_index text j of
        Inl e \<Rightarrow> Inl e
      | Inr c \<Rightarrow> if c \<noteq> CHR '']'' then find_square_end text (j + 1) else Inr j)"
  by pat_completeness auto
termination
  by (relation "measure (\<lambda>(text, j). nat (int (length text) - j))")
     (auto simp: py_index_def Let_def split: if_splits)

text \<open>The loop \<open>while (num_of_parentheses)\<close> that looks for the closing round bracket.\<close>

function find_round_end :: "string \<Rightarrow> int \<Rightarrow> int \<Rightarrow> py_error + int" where
  "find_round_end text j num_of_parentheses =
     (if num_of_parentheses \<noteq> 0 then
        (case py_index text j of
           Inl e \<Rightarrow> Inl e
         | Inr c \<Rightarrow>
             let num = (if c = CHR ''('' then num_of_parentheses + 1 else num_of_parentheses);
                 num = (if c = CHR '')'' then num - 1 else num)
             in find_round_end text (j + 1) num)
      else Inr j)"
  by pat_completeness auto
termination
  by (relation "measure (\<lambda>(text, j, n). nat (int (length text) - j))")
     (auto simp: py_index_def Let_def split: if_splits)

text \<open>
  \<open>__convert_to_standard_re_helper\<close>: the loop \<open>while (i < len(text))\<close> with its
  variables \<open>text\<close>, \<open>parenthesis_begin\<close> and \<open>i\<close>; the helper starts it with an
  empty dictionary at \<open>0\<close>, and so does the recursive call on the inside of a round
  bracket.
\<close>

partial_function (option) convert_loop ::
  "string \<Rightarrow> (int, int) dict \<Rightarrow> int \<Rightarrow> (py_error + string \<times> (int, int) dict) option" where
  "convert_loop text parenthesis_begin i =
     (if i < len text then
        (case py_index text i of
           Inl e \<Rightarrow> Some (Inl e)
         | Inr c \<Rightarrow>
             if c = CHR ''['' then
               (case find_square_end text (i + 1) of
                  Inl e \<Rightarrow> Some (Inl e)
                | Inr j \<Rightarrow>
                    let pattern = ''('' @ join_chars ''+'' (py_slice text (i + 1) j) @ '')'';
                        text1 = py_slice_to text i @ pattern @ py_slice_from text (j + 1);
                        parenthesis_begin1 = dict_set parenthesis_begin (i - 1 + len pattern) i;
                        i1 = i - 1 + len pattern
                    in convert_loop text1 parenthesis_begin1 (i1 + 1))
             else if c = CHR ''('' then
               (case find_round_end text (i + 1) 1 of
                  Inl e \<Rightarrow> Some (Inl e)
                | Inr j \<Rightarrow>
                    Option.bind (convert_loop (py_slice text (i + 1) (j - 1)) [] 0)
                      (\<lambda>r. case r of
                         Inl e \<Rightarrow> Some (Inl e)
                       | Inr (pattern, par_begs) \<Rightarrow>
                           let parenthesis_begin1 =
                                 fold (\<lambda>(end, beg) pb. dict_set pb (end + i + 1) (beg + i + 1))
                                   par_begs parenthesis_begin;
                               text1 = py_slice_to text (i + 1) @ pattern @
                                       py_slice_from text (j - 1);
                               parenthesis_begin2 =
                                 dict_set parenthesis_begin1 (i + 1 + len pattern) i;
                               i1 = i + 1 + len pattern
                           in convert_loop text1 parenthesis_begin2 (i1 + 1)))
             else if [c] = ONE_CLOSURE then
               (let beg_idx = (case dict_get parenthesis_begin (i - 1) of
                                 Some b \<Rightarrow> b | None \<Rightarrow> i - 1);
                    beg_idx = (if i - 1 > 0 \<and> py_index text (i - 2) = Inr (CHR 0x5C)
                               then beg_idx - 1 else beg_idx);
                    pattern = py_slice text beg_idx i;
                    text1 = py_slice_to text beg_idx @ pattern @ pattern @ STD_KLEENE @
                            py_slice_from text (i + 1);
                    i1 = i + len pattern
                in convert_loop text1 parenthesis_begin (i1 + 1))
             else if [c] = ONE_OR_NONE then
               (let beg_idx = (case dict_get parenthesis_begin (i - 1) of
                                 Some b \<Rightarrow> b | None \<Rightarrow> i - 1);
                    pattern = py_slice text beg_idx i;
                    text1 = py_slice_to text beg_idx @ ''('' @ pattern @ STD_SUM @
                            STD_EPSILON @ '')'' @ py_slice_from text (i + 1);
                    i1 = beg_idx + len pattern + 3
                in convert_loop text1 parenthesis_begin (i1 + 1))
             else convert_loop text parenthesis_begin (i + 1))
      else Some (Inr (text, parenthesis_begin)))"

declare convert_loop.simps [code]

definition convert_to_standard_re_helper ::
  "string \<Rightarrow> (py_error + string \<times> (int, int) dict) option" where
  "convert_to_standard_re_helper text = convert_loop text [] 0"

section \<open>regex\_iterator.py: the cursor\<close>

definition END_OF_STRING :: label where
  "END_OF_STRING = [CHR 0x00]"

record regex_iterator =
  regex :: string
  char :: "label option"
  idx :: nat

text \<open>\<open>RegexIterator(regex)\<close> followed by \<open>iter\<close>, which sets \<open>idx\<close> to \<open>0\<close>.\<close>

definition RegexIterator_init :: "string \<Rightarrow> regex_iterator result" where
  "RegexIterator_init regex0 =
     (if regex0 = [] then Some (Inl Empty_regex)
      else case regex_correct regex0 of (correct, error_str) \<Rightarrow>
        if \<not> correct then Some (Inl (Regex_invalid error_str))
        else bind_result (convert_to_standard_re_helper regex0)
               (\<lambda>(text, begs). Some (Inr \<lparr>regex = text, char = None, idx = 0\<rparr>)))"

definition next_char :: "regex_iterator \<Rightarrow> regex_iterator" where
  "next_char it =
     (if idx it = length (regex it) then it\<lparr>char := Some END_OF_STRING\<rparr>
      else it\<lparr>char := Some [regex it ! idx it], idx := idx it + 1\<rparr>)"

section \<open>state.py\<close>

text \<open>
  A \<open>State\<close> object is its \<open>trans\<close> table, a \<open>defaultdict\<close> from labels to lists
  of states. Objects live in a heap, a list of tables; a reference to a state is its
  index. \<open>State()\<close> allocates a new object with an empty table.
\<close>

type_synonym sid = nat
type_synonym table = "(label, sid list) dict"
type_synonym heap = "table list"

definition EPSILON :: label where "EPSILON = ''''"

definition table_of :: "heap \<Rightarrow> sid \<Rightarrow> table" where
  "table_of h s = (if s < length h then h ! s else [])"

definition State_new :: "heap \<Rightarrow> sid \<times> heap" where
  "State_new h = (length h, h @ [[]])"

text \<open>
  \<open>self.trans[key] += [value]\<close>: the \<open>defaultdict\<close> supplies the empty list for a
  missing key, and the value is appended to the list of the key.
\<close>

definition State_setitem :: "heap \<Rightarrow> sid \<Rightarrow> label \<Rightarrow> sid \<Rightarrow> heap" where
  "State_setitem h s key val =
     h[s := dict_set (table_of h s) key
              ((case dict_get (table_of h s) key of None \<Rightarrow> [] | Some ts \<Rightarrow> ts) @ [val])]"

text \<open>
  \<open>self.trans[item]\<close>: reading a missing key of a \<open>defaultdict\<close> inserts the key with
  an empty list, so that the read returns the heap it leaves behind.
\<close>

definition State_getitem :: "heap \<Rightarrow> sid \<Rightarrow> label \<Rightarrow> sid list \<times> heap" where
  "State_getitem h s item =
     (case dict_get (table_of h s) item of
        Some ts \<Rightarrow> (ts, h)
      | None \<Rightarrow> ([], h[s := dict_set (table_of h s) item []]))"

definition State_contains :: "heap \<Rightarrow> sid \<Rightarrow> label \<Rightarrow> bool" where
  "State_contains h s item = dict_in item (table_of h s)"

definition State_get :: "heap \<Rightarrow> sid \<Rightarrow> label \<Rightarrow> sid list \<Rightarrow> sid list \<times> heap" where
  "State_get h s key dflt =
     (if State_contains h s key then State_getitem h s key else (dflt, h))"

section \<open>automaton.py: fragments and combinators\<close>

record automaton =
  initial :: sid
  final :: sid
  enumeration_proper :: bool

text \<open>\<open>Automaton(letter)\<close>: two new states and one transition on \<open>letter\<close>.\<close>

definition Automaton_init :: "heap \<Rightarrow> label \<Rightarrow> automaton \<times> heap" where
  "Automaton_init h letter =
     (case State_new h of (i, h1) \<Rightarrow>
      case State_new h1 of (f, h2) \<Rightarrow>
        (\<lparr>initial = i, final = f, enumeration_proper = False\<rparr>, State_setitem h2 i letter f))"

text \<open>
  \<open>deepcopy(automaton)\<close> duplicates every state reachable from the fragment's
  \<open>initial\<close> and \<open>final\<close> with a new identity. The reachable states are collected
  level by level; a path without repetition has fewer states than the heap, so
  \<open>length h\<close> rounds reach them all.
\<close>

definition successors :: "heap \<Rightarrow> sid \<Rightarrow> sid list" where
  "successors h s = concat (map snd (table_of h s))"

definition reach_step :: "heap \<Rightarrow> sid list \<Rightarrow> sid list" where
  "reach_step h seen = remdups (seen @ concat (map (successors h) seen))"

definition reachable_states :: "heap \<Rightarrow> sid list \<Rightarrow> sid list" where
  "reachable_states h roots = ((reach_step h) ^^ (length h)) (remdups roots)"

fun index_of :: "sid list \<Rightarrow> sid \<Rightarrow> nat" where
  "index_of [] s = 0"
| "index_of (x # xs) s = (if x = s then 0 else Suc (index_of xs s))"

definition deepcopy :: "heap \<Rightarrow> automaton \<Rightarrow> automaton \<times> heap" where
  "deepcopy h a =
     (let R = reachable_states h [initial a, final a];
          ren = (\<lambda>s. length h + index_of R s)
      in (a\<lparr>initial := ren (initial a), final := ren (final a)\<rparr>,
          h @ map (\<lambda>s. map (\<lambda>(l, ts). (l, map ren ts)) (table_of h s)) R))"

definition perform_star :: "heap \<Rightarrow> automaton \<Rightarrow> bool \<Rightarrow> automaton \<times> heap" where
  "perform_star h0 automaton0 copy =
     (case (if copy then deepcopy h0 automaton0 else (automaton0, h0)) of (automaton, h) \<Rightarrow>
      let old_initial = initial automaton;
          old_final = final automaton
      in case State_new h of (new_initial, h1) \<Rightarrow>
         case State_new h1 of (new_final, h2) \<Rightarrow>
         let automaton = automaton\<lparr>initial := new_initial, final := new_final\<rparr>;
             h3 = State_setitem h2 (initial automaton) EPSILON old_initial;
             h4 = State_setitem h3 (initial automaton) EPSILON (final automaton);
             h5 = State_setitem h4 old_final EPSILON (initial automaton);
             h6 = State_setitem h5 old_final EPSILON (final automaton)
         in (automaton\<lparr>enumeration_proper := False\<rparr>, h6))"

definition perform_concatenation ::
  "heap \<Rightarrow> automaton \<Rightarrow> automaton \<Rightarrow> bool \<Rightarrow> bool \<Rightarrow> automaton \<times> heap" where
  "perform_concatenation h0 aut1 aut2 copy_fst copy_snd =
     (case (if copy_fst then deepcopy h0 aut1 else (aut1, h0)) of (automaton1, h1) \<Rightarrow>
      case (if copy_snd then deepcopy h1 aut2 else (aut2, h1)) of (automaton2, h2) \<Rightarrow>
      let h3 = State_setitem h2 (final automaton1) EPSILON (initial automaton2);
          automaton1 = automaton1\<lparr>final := final automaton2\<rparr>
      in (automaton1\<lparr>enumeration_proper := False\<rparr>, h3))"

definition perform_alternative ::
  "heap \<Rightarrow> automaton \<Rightarrow> automaton \<Rightarrow> bool \<Rightarrow> bool \<Rightarrow> automaton \<times> heap" where
  "perform_alternative h0 aut1 aut2 copy_fst copy_snd =
     (case (if copy_fst then deepcopy h0 aut1 else (aut1, h0)) of (automaton1, h1) \<Rightarrow>
      case (if copy_snd then deepcopy h1 aut2 else (aut2, h1)) of (automaton2, h2) \<Rightarrow>
      let old_initial = initial automaton1;
          old_final = final automaton1
      in case State_new h2 of (new_initial, h3) \<Rightarrow>
         case State_new h3 of (new_final, h4) \<Rightarrow>
         let automaton1 = automaton1\<lparr>initial := new_initial, final := new_final\<rparr>;
             h5 = State_setitem h4 (initial automaton1) EPSILON old_initial;
             h6 = State_setitem h5 (initial automaton1) EPSILON (initial automaton2);
             h7 = State_setitem h6 old_final EPSILON (final automaton1);
             h8 = State_setitem h7 (final automaton2) EPSILON (final automaton1)
         in (automaton1\<lparr>enumeration_proper := False\<rparr>, h8))"

section \<open>automaton.py: the parser\<close>

text \<open>
  \<open>__expr\<close>, \<open>__term\<close> and \<open>__factor\<close> with their two \<open>while\<close> loops. The
  functions call each other; the first argument bounds the depth of the calls and
  \<open>None\<close> means that the bound was too small. The cursor and the heap are passed along.
\<close>

type_synonym parse_state = "automaton \<times> heap \<times> regex_iterator"

function (sequential) Automaton_expr :: "nat \<Rightarrow> heap \<Rightarrow> regex_iterator \<Rightarrow> parse_state result"
  and Automaton_expr_loop :: "nat \<Rightarrow> heap \<Rightarrow> regex_iterator \<Rightarrow> automaton \<Rightarrow> parse_state result"
  and Automaton_term :: "nat \<Rightarrow> heap \<Rightarrow> regex_iterator \<Rightarrow> parse_state result"
  and Automaton_term_loop :: "nat \<Rightarrow> heap \<Rightarrow> regex_iterator \<Rightarrow> automaton \<Rightarrow> parse_state result"
  and Automaton_factor :: "nat \<Rightarrow> heap \<Rightarrow> regex_iterator \<Rightarrow> parse_state result"
  where
  "Automaton_expr 0 h it = None"
| "Automaton_expr (Suc n) h it =
     bind_result (Automaton_term n h it) (\<lambda>(automaton, h1, it1). Automaton_expr_loop n h1 it1 automaton)"
| "Automaton_expr_loop 0 h it automaton = None"
| "Automaton_expr_loop (Suc n) h it automaton =
     (if char it = Some STD_SUM then
        bind_result (Automaton_term n h (next_char it))
          (\<lambda>(automaton2, h1, it1).
             case perform_alternative h1 automaton automaton2 False False of
               (automaton3, h2) \<Rightarrow> Automaton_expr_loop n h2 it1 automaton3)
      else Some (Inr (automaton, h, it)))"
| "Automaton_term 0 h it = None"
| "Automaton_term (Suc n) h it =
     bind_result (Automaton_factor n h it) (\<lambda>(automaton, h1, it1). Automaton_term_loop n h1 it1 automaton)"
| "Automaton_term_loop 0 h it automaton = None"
| "Automaton_term_loop (Suc n) h it automaton =
     (if (case char it of None \<Rightarrow> False | Some c \<Rightarrow> c \<in> VALID_SYMBOLS) \<or>
         char it = Some ''('' \<or> char it = Some [CHR 0x5C] then
        bind_result (Automaton_factor n h it)
          (\<lambda>(automaton2, h1, it1).
             case perform_concatenation h1 automaton automaton2 False False of
               (automaton3, h2) \<Rightarrow> Automaton_term_loop n h2 it1 automaton3)
      else Some (Inr (automaton, h, it)))"
| "Automaton_factor 0 h it = None"
| "Automaton_factor (Suc n) h it =
     bind_result
       (if char it = Some BACK_SLASH then
          (let letter = BACK_SLASH;
               it1 = next_char it
           in case char it1 of
                None \<Rightarrow> Some (Inl TypeError)
              | Some c \<Rightarrow>
                  (case Automaton_init h (letter @ c) of
                     (automaton, h1) \<Rightarrow> Some (Inr (automaton, h1, next_char it1))))
        else if char it = Some STD_EPSILON then
          (case Automaton_init h EPSILON of
             (automaton, h1) \<Rightarrow> Some (Inr (automaton, h1, next_char it)))
        else if (case char it of None \<Rightarrow> False | Some c \<Rightarrow> c \<in> VALID_SYMBOLS) then
          (case Automaton_init h (the (char it)) of
             (automaton, h1) \<Rightarrow> Some (Inr (automaton, h1, next_char it)))
        else if char it = Some ''('' then
          bind_result (Automaton_expr n h (next_char it))
            (\<lambda>(automaton, h1, it1).
               Some (Inr (automaton, h1, if char it1 = Some '')'' then next_char it1 else it1)))
        else Some (Inl Exception))
       (\<lambda>(automaton, h1, it1).
          if char it1 = Some STD_KLEENE then
            (case perform_star h1 automaton False of
               (automaton2, h2) \<Rightarrow> Some (Inr (automaton2, h2, next_char it1)))
          else Some (Inr (automaton, h1, it1)))"
  by pat_completeness auto
termination
  by (relation "measure (\<lambda>x. case x of
         Inl (Inl (n, _)) \<Rightarrow> n
       | Inl (Inr (n, _)) \<Rightarrow> n
       | Inr (Inl (n, _)) \<Rightarrow> n
       | Inr (Inr (Inl (n, _))) \<Rightarrow> n
       | Inr (Inr (Inr (n, _))) \<Rightarrow> n)") simp_all

section \<open>automaton.py: the check for epsilon cycles\<close>

text \<open>
  \<open>__bfs_generator\<close>: the states in breadth-first order from \<open>initial\<close>. The first
  argument bounds the number of rounds of the loop, and \<open>None\<close> means that the bound
  was too small; \<open>is_acyclic\<close> allows one round for each state of the heap and one
  for the empty queue, since a state enters the queue once.
\<close>

fun bfs_generator :: "nat \<Rightarrow> heap \<Rightarrow> sid list \<Rightarrow> sid set \<Rightarrow> sid list option" where
  "bfs_generator 0 h queue visited = None"
| "bfs_generator (Suc n) h [] visited = Some []"
| "bfs_generator (Suc n) h (node # queue) visited =
     (case fold (\<lambda>nbh (q, v). if nbh \<notin> v then (q @ [nbh], insert nbh v) else (q, v))
             (successors h node) (queue, visited) of
        (queue1, visited1) \<Rightarrow> map_option ((#) node) (bfs_generator n h queue1 visited1))"

text \<open>
  \<open>__has_epsilon_cycle\<close>, a depth-first search that changes the two sets
  \<open>visited\<close> and \<open>processed\<close>; the result carries them. The first argument bounds the
  depth of the search, and \<open>None\<close> means that the bound was too small;
  \<open>is_acyclic\<close> allows the number of states of the heap and one more.
\<close>

fun has_epsilon_cycle ::
    "nat \<Rightarrow> heap \<Rightarrow> sid \<Rightarrow> sid set \<Rightarrow> sid set \<Rightarrow> (bool \<times> sid set \<times> sid set) option"
  and has_epsilon_cycle_for ::
    "nat \<Rightarrow> heap \<Rightarrow> sid list \<Rightarrow> sid set \<Rightarrow> sid set \<Rightarrow> (bool \<times> sid set \<times> sid set) option"
  where
  "has_epsilon_cycle 0 h node visited processed = None"
| "has_epsilon_cycle (Suc n) h node visited processed =
     (let neighbours = fst (State_get h node EPSILON [])
      in case has_epsilon_cycle_for n h neighbours (insert node visited) processed of
           None \<Rightarrow> None
         | Some (found, visited1, processed1) \<Rightarrow>
             if found then Some (True, visited1, processed1)
             else Some (False, visited1, insert node processed1))"
| "has_epsilon_cycle_for n h [] visited processed = Some (False, visited, processed)"
| "has_epsilon_cycle_for n h (nbh # rest) visited processed =
     (if nbh \<notin> processed then
        if nbh \<in> visited then Some (True, visited, processed)
        else
          (case has_epsilon_cycle n h nbh visited processed of
             None \<Rightarrow> None
           | Some (found, visited1, processed1) \<Rightarrow>
               if found then Some (True, visited1, processed1)
               else has_epsilon_cycle_for n h rest (insert nbh visited1) processed1)
      else has_epsilon_cycle_for n h rest visited processed)"

fun is_acyclic_for ::
  "heap \<Rightarrow> sid list \<Rightarrow> sid set \<Rightarrow> sid set \<Rightarrow> bool option" where
  "is_acyclic_for h [] visited processed = Some True"
| "is_acyclic_for h (node # nodes) visited processed =
     (if node \<notin> processed then
        (case has_epsilon_cycle (length h + 1) h node visited processed of
           None \<Rightarrow> None
         | Some (found, visited1, processed1) \<Rightarrow>
             if found then Some False else is_acyclic_for h nodes visited1 processed1)
      else is_acyclic_for h nodes visited processed)"

definition is_acyclic :: "heap \<Rightarrow> automaton \<Rightarrow> bool option" where
  "is_acyclic h a =
     (case bfs_generator (length h + 1) h [initial a] {initial a} of
        None \<Rightarrow> None
      | Some nodes \<Rightarrow> is_acyclic_for h nodes {} {})"

section \<open>automaton.py: building a fragment from a pattern\<close>

text \<open>
  \<open>build_from_regex\<close> on a heap \<open>h\<close>. The parser is allowed a depth of five
  calls for each character of the converted pattern, and five more; the statements below
  that build a fragment evaluate it on a concrete pattern, where the result shows that
  the bound was large enough.
\<close>

definition build_from_regex :: "heap \<Rightarrow> string \<Rightarrow> bool \<Rightarrow> (automaton \<times> heap) result" where
  "build_from_regex h regex0 check_correctness =
     bind_result (RegexIterator_init regex0)
       (\<lambda>it. bind_result (Automaton_expr (5 * (length (regex it) + 1)) h (next_char it))
          (\<lambda>(automaton, h1, it1).
             if check_correctness then
               (case is_acyclic h1 automaton of
                  None \<Rightarrow> None
                | Some no_cycle \<Rightarrow>
                    if \<not> no_cycle then Some (Inl Epsilon_cycle)
                    else Some (Inr (automaton, h1)))
             else Some (Inr (automaton, h1))))"

section \<open>automaton.py: simulation\<close>

text \<open>
  A frontier \<open>state_dict\<close> maps states to sets of markers. The simulation reads the
  tables of the states through \<open>State_contains\<close> and \<open>State_getitem\<close>; the heap that
  these reads leave behind is passed along and returned.
\<close>

type_synonym state_dict = "(sid, int set) dict"

text \<open>The loop \<open>for next_state in state[State.EPSILON]\<close> of \<open>__closure\<close>.\<close>

fun closure_for :: "sid list \<Rightarrow> int set \<Rightarrow> state_dict \<Rightarrow> sid list \<Rightarrow> state_dict \<times> sid list" where
  "closure_for [] indexes_set state_dict queue = (state_dict, queue)"
| "closure_for (next_state # rest) indexes_set state_dict queue =
     (if \<not> dict_in next_state state_dict then
        closure_for rest indexes_set (dict_set state_dict next_state indexes_set)
          (queue @ [next_state])
      else
        (let new_indexes = the (dict_get state_dict next_state) \<union> indexes_set
         in closure_for rest indexes_set (dict_set state_dict next_state new_indexes)
              (queue @ [next_state])))"

text \<open>
  The loop \<open>while (not queue.empty())\<close> of \<open>__closure\<close>. It need not end: the result
  is \<open>None\<close> when it does not.
\<close>

partial_function (option) closure_loop ::
  "heap \<Rightarrow> sid list \<Rightarrow> state_dict \<Rightarrow> (py_error + state_dict \<times> heap) option" where
  "closure_loop h queue state_dict =
     (case queue of
        [] \<Rightarrow> Some (Inr (state_dict, h))
      | state # queue1 \<Rightarrow>
          (case dict_get state_dict state of
             None \<Rightarrow> Some (Inl KeyError)
           | Some indexes_set \<Rightarrow>
               if State_contains h state EPSILON then
                 (case State_getitem h state EPSILON of
                    (targets, h1) \<Rightarrow>
                      (case closure_for targets indexes_set state_dict queue1 of
                         (state_dict1, queue2) \<Rightarrow> closure_loop h1 queue2 state_dict1))
               else closure_loop h queue1 state_dict))"

declare closure_loop.simps [code]

definition Automaton_closure :: "heap \<Rightarrow> state_dict \<Rightarrow> (state_dict \<times> heap) result" where
  "Automaton_closure h state_dict = closure_loop h (dict_keys state_dict) state_dict"

text \<open>The loop \<open>for new_state in state[alternative_letter]\<close> of \<open>__trans\<close>.\<close>

fun trans_for :: "sid list \<Rightarrow> int set \<Rightarrow> state_dict \<Rightarrow> state_dict" where
  "trans_for [] indexes_set result_dict = result_dict"
| "trans_for (new_state # rest) indexes_set result_dict =
     (if dict_in new_state result_dict then
        (let new_indexes = the (dict_get result_dict new_state) \<union> indexes_set
         in trans_for rest indexes_set (dict_set result_dict new_state new_indexes))
      else trans_for rest indexes_set (dict_set result_dict new_state indexes_set))"

text \<open>
  The loop \<open>for state in state_dict.keys()\<close> of \<open>__trans\<close>, over the entries of the
  dictionary (a key with its \<open>indexes_set\<close>). The variable \<open>letter\<close> is assigned in
  the body and keeps its value from one state to the next.
\<close>

fun trans_loop ::
  "heap \<Rightarrow> (sid \<times> int set) list \<Rightarrow> label \<Rightarrow> state_dict \<Rightarrow> state_dict \<times> heap" where
  "trans_loop h [] letter result_dict = (result_dict, h)"
| "trans_loop h ((state, indexes_set) # rest) letter result_dict =
     (let alternative_letter = letter;
          letter = (if State_contains h state ANY_SYMBOL then ANY_SYMBOL else letter);
          alternative_letter =
            (if State_contains h state DIGITS_CLASS \<and> letter \<in> DIGITS_SET
             then DIGITS_CLASS else alternative_letter);
          alternative_letter =
            (if State_contains h state WORD_CLASS \<and>
                (str_in letter DIGITS_CLASS \<or> letter \<in> ASCII_SET)
             then WORD_CLASS else alternative_letter);
          alternative_letter =
            (if State_contains h state ALPHA_CLASS \<and> letter \<in> ASCII_SET
             then ALPHA_CLASS else alternative_letter)
      in if State_contains h state alternative_letter then
           (case State_getitem h state alternative_letter of
              (targets, h1) \<Rightarrow>
                trans_loop h1 rest letter (trans_for targets indexes_set result_dict))
         else trans_loop h rest letter result_dict)"

definition Automaton_trans :: "heap \<Rightarrow> state_dict \<Rightarrow> label \<Rightarrow> state_dict \<times> heap" where
  "Automaton_trans h state_dict letter = trans_loop h state_dict letter []"

fun test_word_loop :: "heap \<Rightarrow> string \<Rightarrow> state_dict \<Rightarrow> (state_dict \<times> heap) result" where
  "test_word_loop h [] state_dict = Some (Inr (state_dict, h))"
| "test_word_loop h (letter # word) state_dict =
     (case Automaton_trans h state_dict [letter] of
        (trans_dict, h1) \<Rightarrow>
          bind_result (Automaton_closure h1 trans_dict)
            (\<lambda>(state_dict1, h2). test_word_loop h2 word state_dict1))"

definition test_word :: "heap \<Rightarrow> automaton \<Rightarrow> string \<Rightarrow> (bool \<times> heap) result" where
  "test_word h a word =
     bind_result (Automaton_closure h [(initial a, {0})])
       (\<lambda>(state_dict, h1). bind_result (test_word_loop h1 word state_dict)
          (\<lambda>(state_dict1, h2). Some (Inr (dict_in (final a) state_dict1, h2))))"

text \<open>
  One round of the loop of \<open>__matching\<close> up to the test of the candidate: the new
  frontier, and the assignment \<open>occurrences[start_idx + 1] = i + 1\<close> that the round
  makes, if it makes one.
\<close>

definition matching_round ::
  "heap \<Rightarrow> automaton \<Rightarrow> string \<Rightarrow> int \<Rightarrow> char \<Rightarrow> state_dict \<Rightarrow>
   (state_dict \<times> (int \<times> int) option \<times> heap) result" where
  "matching_round h a text i letter state_dict =
     (case Automaton_trans h state_dict [letter] of
        (trans_dict, h1) \<Rightarrow>
          let trans_dict =
                (if dict_in (initial a) trans_dict then
                   dict_set trans_dict (initial a)
                     (the (dict_get trans_dict (initial a)) \<union> {i})
                 else dict_set trans_dict (initial a) {i})
          in bind_result (Automaton_closure h1 trans_dict)
               (\<lambda>(state_dict1, h2).
                  if dict_in (final a) state_dict1 then
                    (let markers = the (dict_get state_dict1 (final a))
                     in if markers = {} then Some (Inl ValueError)
                        else
                          let start_idx = Min markers;
                              word_to_test = py_slice text (start_idx + 1) (i + 1)
                          in if word_to_test \<noteq> [] then
                               bind_result (test_word h2 a word_to_test)
                                 (\<lambda>(accepted, h3).
                                    Some (Inr (state_dict1,
                                      if accepted then Some (start_idx + 1, i + 1) else None,
                                      h3)))
                             else Some (Inr (state_dict1, None, h2)))
                  else Some (Inr (state_dict1, None, h2))))"

text \<open>The loop \<open>for i, letter in enumerate(text)\<close> of \<open>__matching\<close>.\<close>

fun matching_loop ::
  "heap \<Rightarrow> automaton \<Rightarrow> string \<Rightarrow> int \<Rightarrow> string \<Rightarrow> state_dict \<Rightarrow> (int, int) dict \<Rightarrow>
   ((int, int) dict \<times> heap) result" where
  "matching_loop h a text i [] state_dict occurrences = Some (Inr (occurrences, h))"
| "matching_loop h a text i (letter # rest) state_dict occurrences =
     bind_result (matching_round h a text i letter state_dict)
       (\<lambda>(state_dict1, assignment, h1).
          matching_loop h1 a text (i + 1) rest state_dict1
            (case assignment of
               None \<Rightarrow> occurrences
             | Some (start, end) \<Rightarrow> dict_set occurrences start end))"

definition Automaton_matching_helper ::
  "heap \<Rightarrow> automaton \<Rightarrow> string \<Rightarrow> ((int, int) dict \<times> heap) result" where
  "Automaton_matching_helper h a text =
     bind_result (Automaton_closure h [(initial a, {- 1})])
       (\<lambda>(state_dict, h1). matching_loop h1 a text 0 text state_dict [])"

text \<open>
  \<open>matching\<close>: the list \<open>[(start, occurrences[start]) for start in occurrences.keys()]\<close>.
  Printing the highlighted text (\<open>verbose\<close>) does not change the result and is left out.
\<close>

definition matching :: "heap \<Rightarrow> automaton \<Rightarrow> string \<Rightarrow> ((int \<times> int) list \<times> heap) result" where
  "matching h a text =
     bind_result (Automaton_matching_helper h a text)
       (\<lambda>(occurrences, h1).
          Some (Inr (map (\<lambda>start. (start, the (dict_get occurrences start)))
                       (dict_keys occurrences), h1)))"

text \<open>
  The assignments to \<open>occurrences\<close> that the loop of \<open>__matching\<close> makes, in the order
  in which it makes them.
\<close>

fun recordings_loop ::
  "heap \<Rightarrow> automaton \<Rightarrow> string \<Rightarrow> int \<Rightarrow> string \<Rightarrow> state_dict \<Rightarrow> (int \<times> int) list result" where
  "recordings_loop h a text i [] state_dict = Some (Inr [])"
| "recordings_loop h a text i (letter # rest) state_dict =
     bind_result (matching_round h a text i letter state_dict)
       (\<lambda>(state_dict1, assignment, h1).
          bind_result (recordings_loop h1 a text (i + 1) rest state_dict1)
            (\<lambda>later. Some (Inr ((case assignment of None \<Rightarrow> [] | Some r \<Rightarrow> [r]) @ later))))"

definition recordings :: "heap \<Rightarrow> automaton \<Rightarrow> string \<Rightarrow> (int \<times> int) list result" where
  "recordings h a text =
     bind_result (Automaton_closure h [(initial a, {- 1})])
       (\<lambda>(state_dict, h1). recordings_loop h1 a text 0 text state_dict)"

section \<open>The operations of the specification\<close>

text \<open>
  The specification composes the operations above: \<open>compile\<close> is
  \<open>build_from_regex\<close> with the check for epsilon cycles on an empty heap,
  \<open>full_match\<close> is \<open>test_word\<close> and \<open>find_occurrences\<close> is \<open>matching\<close>, each
  on the compiled fragment.
\<close>

definition full_match :: "string \<Rightarrow> string \<Rightarrow> bool result" where
  "full_match pattern word =
     bind_result (build_from_regex [] pattern True)
       (\<lambda>(a, h). bind_result (test_word h a word) (\<lambda>(accepted, h1). Some (Inr accepted)))"

definition find_occurrences :: "string \<Rightarrow> string \<Rightarrow> (int \<times> int) list result" where
  "find_occurrences pattern text =
     bind_result (build_from_regex [] pattern True)
       (\<lambda>(a, h). bind_result (matching h a text) (\<lambda>(spans, h1). Some (Inr spans)))"

text \<open>The targets of a state under a label, and the epsilon edges of a heap.\<close>

definition targets :: "heap \<Rightarrow> sid \<Rightarrow> label \<Rightarrow> sid list" where
  "targets h s l = (case dict_get (table_of h s) l of None \<Rightarrow> [] | Some ts \<Rightarrow> ts)"

definition epsilon_edge_list :: "heap \<Rightarrow> (sid \<times> sid) list" where
  "epsilon_edge_list h = concat (map (\<lambda>s. map (Pair s) (targets h s EPSILON)) [0..<length h])"

definition epsilon_edges :: "heap \<Rightarrow> (sid \<times> sid) set" where
  "epsilon_edges h = set (epsilon_edge_list h)"

section \<open>Notions for the statements about the simulation\<close>

text \<open>
  \<open>closure_markers h d t\<close> is the union of the marker sets of the states of the
  frontier \<open>d\<close> from which \<open>t\<close> is reached over epsilon edges. \<open>closure_inv\<close> is
  the invariant of the loop of \<open>__closure\<close>, for the frontier \<open>d0\<close> it started
  from, the queue \<open>q\<close> and the dictionary \<open>d\<close>: the queue holds keys of \<open>d\<close>;
  \<open>d\<close> holds the frontier; every marker set of \<open>d\<close> is below
  \<open>closure_markers\<close>; and a state that is not in the queue has passed its markers to
  its epsilon targets.
\<close>

definition closure_markers :: "heap \<Rightarrow> state_dict \<Rightarrow> sid \<Rightarrow> int set" where
  "closure_markers h d t =
     \<Union> {m. \<exists>s. dict_get d s = Some m \<and> (s, t) \<in> (epsilon_edges h)\<^sup>*}"

definition closure_inv :: "heap \<Rightarrow> state_dict \<Rightarrow> sid list \<Rightarrow> state_dict \<Rightarrow> bool" where
  "closure_inv h d0 q d \<longleftrightarrow>
     (\<forall>s \<in> set q. dict_get d s \<noteq> None) \<and>
     (\<forall>s m. dict_get d0 s = Some m \<longrightarrow> (\<exists>m'. dict_get d s = Some m' \<and> m \<subseteq> m')) \<and>
     (\<forall>t m. dict_get d t = Some m \<longrightarrow>
        m \<subseteq> closure_markers h d0 t \<and>
        (\<exists>s. dict_get d0 s \<noteq> None \<and> (s, t) \<in> (epsilon_edges h)\<^sup>*)) \<and>
     (\<forall>s m. dict_get d s = Some m \<longrightarrow> s \<notin> set q \<longrightarrow>
        (\<forall>t \<in> set (targets h s EPSILON). \<exists>m'. dict_get d t = Some m' \<and> m \<subseteq> m'))"

text \<open>\<open>nonempty_items d\<close>: no entry of the frontier \<open>d\<close> has an empty set of markers.\<close>

definition nonempty_items :: "state_dict \<Rightarrow> bool" where
  "nonempty_items d \<longleftrightarrow> (\<forall>(s, m) \<in> set d. m \<noteq> {})"

text \<open>
  \<open>occurrences_after occurrences recs\<close> is the dictionary after the assignments
  \<open>recs\<close>, in their order. \<open>first_occurrences xs\<close> keeps the first occurrence of
  each element of \<open>xs\<close>.
\<close>

definition occurrences_after :: "(int, int) dict \<Rightarrow> (int \<times> int) list \<Rightarrow> (int, int) dict" where
  "occurrences_after occurrences recs = foldl (\<lambda>d (start, end). dict_set d start end) occurrences recs"

definition first_occurrences :: "'a list \<Rightarrow> 'a list" where
  "first_occurrences xs = rev (remdups (rev xs))"


section \<open>Substring search on a concrete text\<close>

text \<open>
  Claim C1 expects the single span \<open>(1, 5)\<close> for the pattern \<open>ab*a\<close> on the text
  \<open>xaabay\<close>. The word \<open>aaba\<close> from 1 to 5 is not in the language of the pattern, and
  the search does not return that list.
\<close>

theorem C1_not_single_span:
  "find_occurrences ''ab*a'' ''xaabay'' \<noteq> Some (Inr [(1, 5)])"
  by code_simp

text \<open>
  Claim C1, amended: the search for \<open>ab*a\<close> in \<open>xaabay\<close> returns the two spans
  \<open>(1, 3)\<close> and \<open>(2, 5)\<close>, the words \<open>aa\<close> and \<open>aba\<close>, each found with the
  least marker at the final state at its end and confirmed by \<open>test_word\<close>.
\<close>

theorem C1_two_spans:
  "find_occurrences ''ab*a'' ''xaabay'' = Some (Inr [(1, 3), (2, 5)])"
  by code_simp

section \<open>The class of word characters\<close>

text \<open>
  Claim C2 says that the fragment of the pattern \<open>\w\<close> matches every word of one
  digit. The step tests \<open>letter in DIGITS_CLASS\<close>, a search in the string \<open>\d\<close>, where
  the set of digits is meant: the word \<open>5\<close> is rejected.
\<close>

theorem C2_word_class_rejects_digit:
  "full_match [CHR 0x5C, CHR ''w''] ''5'' = Some (Inr False)"
  by code_simp

section \<open>The wildcard\<close>

text \<open>
  Claim C3 says that a state with a transition on the wildcard takes it for every input
  symbol. The step assigns the wildcard to \<open>letter\<close> after it has copied \<open>letter\<close>
  to \<open>alternative_letter\<close>, so that the state itself still looks for the input
  symbol: the fragment of the pattern \<open>.\<close> rejects the word \<open>a\<close>.
\<close>

theorem C3_wildcard_rejects_letter:
  "full_match ''.'' ''a'' = Some (Inr False)"
  by code_simp

section \<open>Conversion of the quantifier for zero or one\<close>

text \<open>
  Claim C4 says that \<open>\d?\<close> becomes \<open>(\d+?)\<close>, and the same for \<open>\w\<close> and
  \<open>\a\<close>. The patterns pass the validation, and the branch for \<open>?\<close> takes the one
  character before it, without the step back over the backslash that the branch for
  \<open>+\<close> makes: the backslash stays outside of the bracket.
\<close>

theorem C4_escape_left_outside:
  "fst (regex_correct (CHR 0x5C # ''d?'')) \<and>
   convert_to_standard_re_helper (CHR 0x5C # ''d?'') = Some (Inr (CHR 0x5C # ''(d+?)'', [])) \<and>
   convert_to_standard_re_helper (CHR 0x5C # ''w?'') = Some (Inr (CHR 0x5C # ''(w+?)'', [])) \<and>
   convert_to_standard_re_helper (CHR 0x5C # ''a?'') = Some (Inr (CHR 0x5C # ''(a+?)'', []))"
  by code_simp

section \<open>Rejected patterns\<close>

text \<open>
  Claim C6 says that each of the four patterns is rejected with a position. The pattern
  \<open>(a\<close> is rejected after the loop, with the message that has no position.
\<close>

theorem C6_unbalanced_has_no_position:
  "\<not> fst (regex_correct ''(a'') \<and> message_pos (snd (regex_correct ''(a'')) = None"
  by code_simp

text \<open>
  Claim C6, amended: \<open>RegexIterator\<close> rejects the four patterns with a
  \<open>ValueError\<close>; the message carries the position 1 for \<open>a**\<close>, 0 for \<open>[]\<close> and 0
  for \<open>\x\<close>, and no position for \<open>(a\<close>, whose message only says that some
  parentheses are not enclosed.
\<close>

theorem C6_rejections:
  "RegexIterator_init ''(a'' = Some (Inl (Regex_invalid Not_enclosed)) \<and>
   RegexIterator_init ''a**'' = Some (Inl (Regex_invalid (Repetition_meta 1))) \<and>
   RegexIterator_init ''[]'' = Some (Inl (Regex_invalid (Empty_square 0))) \<and>
   RegexIterator_init (CHR 0x5C # ''x'') = Some (Inl (Regex_invalid (Backslash_not_followed 0))) \<and>
   message_pos (Repetition_meta 1) = Some 1 \<and>
   message_pos (Empty_square 0) = Some 0 \<and>
   message_pos (Backslash_not_followed 0) = Some 0 \<and>
   message_pos Not_enclosed = None"
  by code_simp

section \<open>Dictionaries and heaps\<close>

lemma map_of_dict_set: "map_of (dict_set d k v) = (map_of d)(k \<mapsto> v)"
  by (induction d) (auto simp: fun_eq_iff)

lemma dict_get_dict_set: "dict_get (dict_set d k v) k' = (if k' = k then Some v else dict_get d k')"
  by (simp add: dict_get_def map_of_dict_set)

lemma table_of_update:
  "table_of (h[s := t]) s' = (if s' = s \<and> s < length h then t else table_of h s')"
  by (auto simp: table_of_def)

lemma table_of_append:
  "table_of (h @ [t]) s = (if s = length h then t else table_of h s)"
  by (auto simp: table_of_def nth_append)

lemma targets_setitem:
  "targets (State_setitem h s key val) s' l =
     (if s' = s \<and> l = key \<and> s < length h then targets h s key @ [val] else targets h s' l)"
  by (auto simp: targets_def State_setitem_def table_of_update dict_get_dict_set split: option.splits)

lemma table_of_length: "table_of h (length h) = []"
  by (simp add: table_of_def)

lemma targets_new: "targets (h @ [[]]) s l = targets h s l"
  by (cases "s = length h") (simp_all add: targets_def table_of_append table_of_length dict_get_def)

lemma length_setitem: "length (State_setitem h s key val) = length h"
  by (simp add: State_setitem_def)

section \<open>The star combinator\<close>

text \<open>
  Claim C5 says that the star combinator adds an epsilon edge from the old final state
  to the old initial state. On the fragment of the letter \<open>a\<close> (states 0 and 1) the
  epsilon targets of the old final state 1 do not contain the old initial state 0.
\<close>

theorem C5_no_edge_to_old_initial:
  "0 \<notin> set (targets (snd (perform_star [[(''a'', [1])], []]
                   \<lparr>initial = 0, final = 1, enumeration_proper = False\<rparr> False)) 1 EPSILON)"
  by code_simp

text \<open>
  Claim C5, amended: the star combinator, applied to a fragment (to its copy when
  \<open>copy\<close> is set), creates one new initial and one new final state, which are the
  initial and the final state of the result, and adds exactly four epsilon edges: from the
  new initial state to the old initial state and to the new final state, and from the old
  final state to the new initial state and to the new final state. Every other list of
  targets is unchanged.
\<close>

theorem C5_star_edges:
  assumes "(if copy then deepcopy h a else (a, h)) = (a0, h0)"
    and "final a0 < length h0"
    and "perform_star h a copy = (a1, h1)"
  shows "initial a1 = length h0 \<and> final a1 = length h0 + 1 \<and> length h1 = length h0 + 2 \<and>
     (\<forall>s l. targets h1 s l =
        (if s = initial a1 \<and> l = EPSILON then [initial a0, final a1]
         else if s = final a0 \<and> l = EPSILON then
           targets h0 (final a0) EPSILON @ [initial a1, final a1]
         else targets h0 s l))"
proof -
  have tn: "targets h0 (length h0) l = []" for l
    by (simp add: targets_def table_of_def dict_get_def)
  have tn1: "targets h0 (Suc (length h0)) l = []" for l
    by (simp add: targets_def table_of_def dict_get_def)
  from assms(1,3) have a1: "a1 = a0\<lparr>initial := length h0, final := length h0 + 1, enumeration_proper := False\<rparr>"
    and h1: "h1 = State_setitem (State_setitem (State_setitem (State_setitem (h0 @ [[]] @ [[]])
                (length h0) EPSILON (initial a0)) (length h0) EPSILON (length h0 + 1))
                (final a0) EPSILON (length h0)) (final a0) EPSILON (length h0 + 1)"
    by (auto simp: perform_star_def State_new_def Let_def split: if_splits)
  show ?thesis
    using assms(2) unfolding a1 h1
    by (auto simp: targets_setitem length_setitem targets_new tn tn1
        targets_new[of "h0 @ [[]]", simplified])
qed

theorem C5_star_edges_witness:
  "final \<lparr>initial = 0, final = 1, enumeration_proper = False\<rparr> < length [[(''a'', [1::nat])], []] \<and>
   targets (snd (perform_star [[(''a'', [1])], []]
                   \<lparr>initial = 0, final = 1, enumeration_proper = False\<rparr> False)) 1 EPSILON = [2, 3]"
proof -
  let ?h = "[[(''a'', [1::nat])], []]"
  let ?a = "\<lparr>initial = 0, final = 1, enumeration_proper = False\<rparr>"
  let ?r = "perform_star ?h ?a False"
  have c: "(if False then deepcopy ?h ?a else (?a, ?h)) = (?a, ?h)"
    by simp
  have f: "final ?a < length ?h"
    by simp
  have r: "?r = (fst ?r, snd ?r)"
    by simp
  have old: "targets ?h 1 EPSILON = []"
    by (simp add: targets_def table_of_def dict_get_def)
  from C5_star_edges [OF c f r]
  have i: "initial (fst ?r) = 2" and e: "final (fst ?r) = 3"
    and t: "targets (snd ?r) 1 EPSILON =
      (if 1 = initial (fst ?r) \<and> EPSILON = EPSILON then [initial ?a, final (fst ?r)]
       else if 1 = final ?a \<and> EPSILON = EPSILON then
         targets ?h (final ?a) EPSILON @ [initial (fst ?r), final (fst ?r)]
       else targets ?h 1 EPSILON)"
    by simp_all
  from t old show ?thesis
    unfolding i e by simp
qed


section \<open>The simulation only reads the heap\<close>

lemma getitem_guarded:
  "State_contains h s l \<Longrightarrow> State_getitem h s l = (targets h s l, h)"
  by (auto simp: State_contains_def dict_in_def State_getitem_def targets_def dict_get_def)

lemma targets_not_contained: "\<not> State_contains h s l \<Longrightarrow> targets h s l = []"
  by (auto simp: State_contains_def dict_in_def targets_def dict_get_def)

lemma closure_loop_Nil: "closure_loop h [] d = Some (Inr (d, h))"
  by (subst closure_loop.simps) simp

lemma closure_loop_Cons:
  "closure_loop h (s # q) d =
     (case dict_get d s of
        None \<Rightarrow> Some (Inl KeyError)
      | Some m \<Rightarrow> closure_loop h (snd (closure_for (targets h s EPSILON) m d q))
                     (fst (closure_for (targets h s EPSILON) m d q)))"
  by (subst closure_loop.simps)
     (auto simp: getitem_guarded targets_not_contained split: option.splits prod.splits)

lemma closure_loop_heap_all:
  assumes "closure_loop h q d = Some r"
  shows "\<forall>d' h'. r = Inr (d', h') \<longrightarrow> h' = h"
proof (rule closure_loop.raw_induct
    [where P = "\<lambda>h q d r. \<forall>d' h'. r = Inr (d', h') \<longrightarrow> h' = h", OF _ assms])
  fix f h q d r
  assume IH: "\<And>h q d y. f h q d = Some y \<Longrightarrow> \<forall>d' h'. y = Inr (d', h') \<longrightarrow> h' = h"
    and body: "(case q of
        [] \<Rightarrow> Some (Inr (d, h))
      | state # queue1 \<Rightarrow>
          (case dict_get d state of
             None \<Rightarrow> Some (Inl KeyError)
           | Some indexes_set \<Rightarrow>
               if State_contains h state EPSILON then
                 (case State_getitem h state EPSILON of
                    (ts, h1) \<Rightarrow>
                      (case closure_for ts indexes_set d queue1 of
                         (state_dict1, queue2) \<Rightarrow> f h1 queue2 state_dict1))
               else f h queue1 d)) = Some r"
  from body show "\<forall>d' h'. r = Inr (d', h') \<longrightarrow> h' = h"
    by (auto simp: getitem_guarded dest: IH
        split: list.splits option.splits if_splits prod.splits)
qed

lemma closure_loop_heap:
  "closure_loop h q d = Some (Inr (d', h')) \<Longrightarrow> h' = h"
  using closure_loop_heap_all by blast

lemma trans_loop_heap: "snd (trans_loop h items letter r) = h"
  by (induction h items letter r rule: trans_loop.induct)
     (auto simp: Let_def getitem_guarded)

lemma Automaton_trans_heap: "Automaton_trans h d l = (d', h') \<Longrightarrow> h' = h"
  using trans_loop_heap [of h d l "[]"] by (simp add: Automaton_trans_def)

lemma Automaton_closure_heap: "Automaton_closure h d = Some (Inr (d', h')) \<Longrightarrow> h' = h"
  unfolding Automaton_closure_def by (rule closure_loop_heap)

lemma bind_result_Inr:
  "bind_result r f = Some (Inr v) \<longleftrightarrow> (\<exists>u. r = Some (Inr u) \<and> f u = Some (Inr v))"
  by (auto simp: bind_result_def split: option.splits sum.splits)

lemma test_word_loop_heap:
  "test_word_loop h word d = Some (Inr (d', h')) \<Longrightarrow> h' = h"
proof (induction word arbitrary: h d)
  case Nil
  then show ?case by simp
next
  case (Cons c word)
  then show ?case
    by (auto simp: bind_result_Inr split: prod.splits
        dest!: Automaton_trans_heap Automaton_closure_heap)
qed

lemma test_word_heap: "test_word h a word = Some (Inr (b, h')) \<Longrightarrow> h' = h"
  by (auto simp: test_word_def bind_result_Inr
      dest!: Automaton_closure_heap test_word_loop_heap)

lemma matching_round_heap:
  "matching_round h a text i c d = Some (Inr (d', r, h')) \<Longrightarrow> h' = h"
  by (auto simp: matching_round_def bind_result_Inr Let_def
      split: prod.splits if_splits
      dest!: Automaton_trans_heap Automaton_closure_heap test_word_heap)

lemma matching_loop_heap:
  "matching_loop h a text i rest d occ = Some (Inr (occ', h')) \<Longrightarrow> h' = h"
proof (induction rest arbitrary: h i d occ)
  case Nil
  then show ?case by simp
next
  case (Cons c rest)
  then show ?case
    by (auto simp: bind_result_Inr dest!: matching_round_heap)
qed


section \<open>The epsilon closure\<close>

lemma edge_iff: "(s, t) \<in> epsilon_edges h \<longleftrightarrow> t \<in> set (targets h s EPSILON)"
proof -
  have "s \<ge> length h \<Longrightarrow> targets h s EPSILON = []"
    by (simp add: targets_def table_of_def dict_get_def)
  then show ?thesis
    by (fastforce simp: epsilon_edges_def epsilon_edge_list_def)
qed

lemma dict_in_iff: "dict_in k d \<longleftrightarrow> dict_get d k \<noteq> None"
  by (simp add: dict_in_def dict_get_def)

lemma closure_for_queue: "snd (closure_for ts m d q) = q @ ts"
  by (induction ts arbitrary: d q) (simp_all add: Let_def)

lemma closure_for_get:
  "dict_get (fst (closure_for ts m d q)) x =
     (if x \<in> set ts then Some ((case dict_get d x of None \<Rightarrow> {} | Some m' \<Rightarrow> m') \<union> m)
      else dict_get d x)"
proof (induction ts arbitrary: d q x)
  case Nil
  then show ?case by simp
next
  case (Cons n ts)
  show ?case
    by (auto simp: Cons.IH Let_def dict_in_iff dict_get_dict_set split: option.splits)
qed

lemma closure_markers_mono:
  "(s, t) \<in> epsilon_edges h \<Longrightarrow> closure_markers h d s \<subseteq> closure_markers h d t"
  unfolding closure_markers_def by (blast intro: rtrancl_into_rtrancl)

lemma closure_inv_init: "closure_inv h d (dict_keys d) d"
proof -
  have "dict_get d s \<noteq> None" if "s \<in> set (dict_keys d)" for s
    using that by (auto simp: dict_keys_def dict_get_def map_of_eq_None_iff)
  moreover have "m \<subseteq> closure_markers h d t" if "dict_get d t = Some m" for t m
    using that unfolding closure_markers_def by blast
  moreover have "s \<in> set (dict_keys d)" if "dict_get d s = Some m" for s m
    using that by (auto simp: dict_keys_def dict_get_def dest: map_of_SomeD intro: rev_image_eqI)
  ultimately show ?thesis
    unfolding closure_inv_def by blast
qed

lemma closure_inv_step:
  assumes inv: "closure_inv h d0 (s # q) d" and m: "dict_get d s = Some m"
  shows "closure_inv h d0 (q @ targets h s EPSILON)
           (fst (closure_for (targets h s EPSILON) m d q))"
proof -
  let ?ts = "targets h s EPSILON"
  let ?d = "fst (closure_for ?ts m d q)"
  note g = closure_for_get [of ?ts m d q]
  from inv have a: "\<forall>x \<in> set q. dict_get d x \<noteq> None"
    and b: "\<forall>x mx. dict_get d0 x = Some mx \<longrightarrow> (\<exists>m'. dict_get d x = Some m' \<and> mx \<subseteq> m')"
    and c: "\<forall>t mt. dict_get d t = Some mt \<longrightarrow>
              mt \<subseteq> closure_markers h d0 t \<and>
              (\<exists>x. dict_get d0 x \<noteq> None \<and> (x, t) \<in> (epsilon_edges h)\<^sup>*)"
    and e: "\<forall>x mx. dict_get d x = Some mx \<longrightarrow> x \<notin> set (s # q) \<longrightarrow>
              (\<forall>t \<in> set (targets h x EPSILON). \<exists>m'. dict_get d t = Some m' \<and> mx \<subseteq> m')"
    by (simp_all add: closure_inv_def)
  have grow: "\<exists>m'. dict_get ?d x = Some m' \<and> mx \<subseteq> m'" if "dict_get d x = Some mx" for x mx
    using that by (auto simp: g)
  have a': "\<forall>x \<in> set (q @ ?ts). dict_get ?d x \<noteq> None"
    using a by (auto simp: g)
  have b': "\<forall>x mx. dict_get d0 x = Some mx \<longrightarrow> (\<exists>m'. dict_get ?d x = Some m' \<and> mx \<subseteq> m')"
  proof (intro allI impI)
    fix x mx assume "dict_get d0 x = Some mx"
    with b obtain m1 where "dict_get d x = Some m1" "mx \<subseteq> m1" by blast
    with grow [of x m1] show "\<exists>m'. dict_get ?d x = Some m' \<and> mx \<subseteq> m'" by blast
  qed
  from c m have ms: "m \<subseteq> closure_markers h d0 s"
    and sr: "\<exists>x. dict_get d0 x \<noteq> None \<and> (x, s) \<in> (epsilon_edges h)\<^sup>*"
    by blast+
  have c': "\<forall>t mt. dict_get ?d t = Some mt \<longrightarrow>
              mt \<subseteq> closure_markers h d0 t \<and>
              (\<exists>x. dict_get d0 x \<noteq> None \<and> (x, t) \<in> (epsilon_edges h)\<^sup>*)"
  proof (intro allI impI)
    fix t mt assume t: "dict_get ?d t = Some mt"
    show "mt \<subseteq> closure_markers h d0 t \<and>
          (\<exists>x. dict_get d0 x \<noteq> None \<and> (x, t) \<in> (epsilon_edges h)\<^sup>*)"
    proof (cases "t \<in> set ?ts")
      case True
      then have st: "(s, t) \<in> epsilon_edges h" by (simp add: edge_iff)
      with ms closure_markers_mono have mt': "m \<subseteq> closure_markers h d0 t" by blast
      from sr st have r: "\<exists>x. dict_get d0 x \<noteq> None \<and> (x, t) \<in> (epsilon_edges h)\<^sup>*"
        by (blast intro: rtrancl_into_rtrancl)
      from t True have "mt = (case dict_get d t of None \<Rightarrow> {} | Some m' \<Rightarrow> m') \<union> m"
        by (simp add: g)
      with c mt' have "mt \<subseteq> closure_markers h d0 t"
        by (cases "dict_get d t") auto
      with r show ?thesis by blast
    next
      case False
      with t have "dict_get d t = Some mt" by (simp add: g)
      with c show ?thesis by blast
    qed
  qed
  have e': "\<forall>x mx. dict_get ?d x = Some mx \<longrightarrow> x \<notin> set (q @ ?ts) \<longrightarrow>
              (\<forall>t \<in> set (targets h x EPSILON). \<exists>m'. dict_get ?d t = Some m' \<and> mx \<subseteq> m')"
  proof (intro allI impI ballI)
    fix x mx t
    assume x: "dict_get ?d x = Some mx" and nq: "x \<notin> set (q @ ?ts)"
      and t: "t \<in> set (targets h x EPSILON)"
    from x nq have dx: "dict_get d x = Some mx" by (simp add: g)
    show "\<exists>m'. dict_get ?d t = Some m' \<and> mx \<subseteq> m'"
    proof (cases "x = s")
      case True
      with dx m have "mx = m" by simp
      with t True show ?thesis by (auto simp: g)
    next
      case False
      with nq have "x \<notin> set (s # q)" by simp
      with e dx t obtain m1 where "dict_get d t = Some m1" "mx \<subseteq> m1" by blast
      with grow [of t m1] show ?thesis by blast
    qed
  qed
  show ?thesis
    unfolding closure_inv_def
    apply (intro conjI)
       apply (rule a')
      apply (rule b')
     apply (rule c')
    apply (rule e')
    done
qed

lemma closure_loop_returns:
  assumes wf: "wf ((epsilon_edges h)\<inverse>)"
  shows "closure_inv h d0 q d \<Longrightarrow>
         \<exists>d'. closure_loop h q d = Some (Inr (d', h)) \<and> closure_inv h d0 [] d'"
proof (induction q arbitrary: d
    rule: wf_induct_rule [OF wf_inv_image [OF wf_mult [OF wf], of mset]])
  case (1 q)
  show ?case
  proof (cases q)
    case Nil
    with 1 show ?thesis by (auto simp: closure_loop_Nil)
  next
    case (Cons s rest)
    let ?ts = "targets h s EPSILON"
    from 1(2) Cons obtain m where m: "dict_get d s = Some m"
      unfolding closure_inv_def by auto
    have "\<forall>k \<in> set_mset (mset ?ts). \<exists>j \<in> set_mset {#s#}. (k, j) \<in> (epsilon_edges h)\<inverse>"
      by (simp add: edge_iff)
    then have "(mset rest + mset ?ts, mset rest + {#s#}) \<in> mult ((epsilon_edges h)\<inverse>)"
      by (intro one_step_implies_mult) simp_all
    then have less: "(rest @ ?ts, q) \<in> inv_image (mult ((epsilon_edges h)\<inverse>)) mset"
      by (simp add: Cons)
    from 1(2) Cons m have "closure_inv h d0 (rest @ ?ts) (fst (closure_for ?ts m d rest))"
      by (simp add: closure_inv_step)
    from 1(1) [OF less this] show ?thesis
      by (simp add: Cons closure_loop_Cons m closure_for_queue)
  qed
qed

lemma closure_inv_final:
  assumes "closure_inv h d0 [] d"
  shows "dict_get d t =
     (if \<exists>s. dict_in s d0 \<and> (s, t) \<in> (epsilon_edges h)\<^sup>* then
        Some (closure_markers h d0 t)
      else None)"
proof -
  from assms
  have b: "\<And>x mx. dict_get d0 x = Some mx \<Longrightarrow> \<exists>m'. dict_get d x = Some m' \<and> mx \<subseteq> m'"
    and c: "\<And>t mt. dict_get d t = Some mt \<Longrightarrow>
              mt \<subseteq> closure_markers h d0 t \<and>
              (\<exists>x. dict_get d0 x \<noteq> None \<and> (x, t) \<in> (epsilon_edges h)\<^sup>*)"
    and e: "\<And>x mx t. dict_get d x = Some mx \<Longrightarrow> t \<in> set (targets h x EPSILON) \<Longrightarrow>
              \<exists>m'. dict_get d t = Some m' \<and> mx \<subseteq> m'"
    unfolding closure_inv_def by (blast, blast, fastforce)
  have reach: "\<exists>m'. dict_get d t = Some m' \<and> mx \<subseteq> m'"
    if "(s, t) \<in> (epsilon_edges h)\<^sup>*" "dict_get d0 s = Some mx" for s t mx
    using that
  proof (induction rule: rtrancl_induct)
    case base
    then show ?case by (rule b)
  next
    case (step y z)
    then obtain m1 where "dict_get d y = Some m1" "mx \<subseteq> m1" by blast
    with e [of y m1 z] step(2) show ?case
      by (auto simp: edge_iff)
  qed
  show ?thesis
  proof (cases "\<exists>s. dict_in s d0 \<and> (s, t) \<in> (epsilon_edges h)\<^sup>*")
    case True
    then obtain s ms where s: "dict_get d0 s = Some ms" "(s, t) \<in> (epsilon_edges h)\<^sup>*"
      by (auto simp: dict_in_iff)
    with reach obtain mt where mt: "dict_get d t = Some mt" by blast
    have "closure_markers h d0 t \<subseteq> mt"
      unfolding closure_markers_def using reach mt by fastforce
    with c [OF mt] mt True show ?thesis by auto
  next
    case False
    have "dict_get d t = None"
    proof (cases "dict_get d t")
      case None
      then show ?thesis .
    next
      case (Some mt)
      from c [OF Some] obtain x where "dict_get d0 x \<noteq> None" "(x, t) \<in> (epsilon_edges h)\<^sup>*"
        by blast
      then have "dict_in x d0 \<and> (x, t) \<in> (epsilon_edges h)\<^sup>*"
        by (simp add: dict_in_iff)
      with False show ?thesis by blast
    qed
    with False show ?thesis by simp
  qed
qed


text \<open>
  Claim C7: on a heap whose epsilon edges have no cycle, \<open>__closure\<close> returns for
  every frontier, although it puts a state into the queue every time it reaches it; the
  heap is unchanged; and in the result exactly the states reached from the frontier over
  epsilon edges have an entry, which is the union of the marker sets of the states of the
  frontier that reach them.
\<close>

theorem C7_closure_terminates:
  assumes "acyclic (epsilon_edges h)"
  shows "\<exists>d'. Automaton_closure h d = Some (Inr (d', h)) \<and>
     (\<forall>t. dict_get d' t =
        (if \<exists>s. dict_in s d \<and> (s, t) \<in> (epsilon_edges h)\<^sup>* then
           Some (\<Union> {m. \<exists>s. dict_get d s = Some m \<and> (s, t) \<in> (epsilon_edges h)\<^sup>*})
         else None))"
proof -
  have "finite (epsilon_edges h)"
    by (simp add: epsilon_edges_def)
  from this assms have "wf ((epsilon_edges h)\<inverse>)"
    by (rule finite_acyclic_wf_converse)
  from closure_loop_returns [OF this closure_inv_init]
  obtain d' where "closure_loop h (dict_keys d) d = Some (Inr (d', h))"
    and "closure_inv h d [] d'" by blast
  then show ?thesis
    using closure_inv_final [of h d d']
    by (auto simp: Automaton_closure_def closure_markers_def)
qed

theorem C7_closure_terminates_witness:
  "acyclic (epsilon_edges [[(''a'', [1])], [([], [2, 3])], [([], [0, 3])], []]) \<and>
   (\<exists>d'. Automaton_closure [[(''a'', [1])], [([], [2, 3])], [([], [0, 3])], []] [(1, {0})] =
            Some (Inr (d', [[(''a'', [1])], [([], [2, 3])], [([], [0, 3])], []])) \<and>
          dict_get d' 0 = Some {0} \<and> dict_get d' 4 = None)"
proof -
  let ?h = "[[(''a'', [1::nat])], [([], [2, 3])], [([], [0, 3])], []]"
  let ?d = "[(1::nat, {0::int})]"
  have edges: "epsilon_edges ?h = {(1, 2), (1, 3), (2, 0), (2, 3)}"
    by code_simp
  have ac: "acyclic (epsilon_edges ?h)"
    unfolding edges by (rule acyclicI_order [where f = "\<lambda>s. if s = 1 then 3 else if s = 2 then 2 else (0::nat)"]) auto
  have r0: "(1, 0) \<in> (epsilon_edges ?h)\<^sup>*"
    unfolding edges by (rule rtrancl_trans [of _ 2]) auto
  have src: "s = 1" if "dict_in s [(1::nat, {0::int})]" for s
    using that by (simp add: dict_in_def split: if_splits)
  have r4: "(1, 4) \<notin> (epsilon_edges ?h)\<^sup>*"
  proof
    assume "(1, 4) \<in> (epsilon_edges ?h)\<^sup>*"
    then show False
      unfolding edges by (cases rule: rtranclE) auto
  qed
  from C7_closure_terminates [OF ac, of ?d] obtain d'
    where both: "Automaton_closure ?h ?d = Some (Inr (d', ?h)) \<and>
      (\<forall>t. dict_get d' t =
        (if \<exists>s. dict_in s ?d \<and> (s, t) \<in> (epsilon_edges ?h)\<^sup>* then
           Some (\<Union> {m. \<exists>s. dict_get ?d s = Some m \<and> (s, t) \<in> (epsilon_edges ?h)\<^sup>*})
         else None))"
    ..
  from both have d': "Automaton_closure ?h ?d = Some (Inr (d', ?h))"
    by (rule conjunct1)
  from both have all: "\<forall>t. dict_get d' t =
        (if \<exists>s. dict_in s ?d \<and> (s, t) \<in> (epsilon_edges ?h)\<^sup>* then
           Some (\<Union> {m. \<exists>s. dict_get ?d s = Some m \<and> (s, t) \<in> (epsilon_edges ?h)\<^sup>*})
         else None)"
    by (rule conjunct2)
  have in1: "dict_in 1 [(1::nat, {0::int})]"
    by (simp add: dict_in_def)
  have "{m. \<exists>s. dict_get [(1::nat, {0::int})] s = Some m \<and> (s, 0) \<in> (epsilon_edges ?h)\<^sup>*} = {{0}}"
    using r0 by (auto simp: dict_get_def split: if_splits)
  with all r0 in1 have g0: "dict_get d' 0 = Some {0}"
    by auto
  from all r4 src have g4: "dict_get d' 4 = None"
    by auto
  from ac d' g0 g4 show ?thesis by blast
qed


section \<open>The simulation returns on heaps without epsilon cycles\<close>

lemma nonempty_items_get: "nonempty_items d \<Longrightarrow> dict_get d s = Some m \<Longrightarrow> m \<noteq> {}"
  by (auto simp: nonempty_items_def dict_get_def dest!: map_of_SomeD)

lemma set_dict_set: "set (dict_set d k v) \<subseteq> insert (k, v) (set d)"
  by (induction d) (auto split: if_splits)

lemma nonempty_items_set: "nonempty_items d \<Longrightarrow> v \<noteq> {} \<Longrightarrow> nonempty_items (dict_set d k v)"
  using set_dict_set [of d k v] by (auto simp: nonempty_items_def)

lemma closure_for_nonempty:
  "nonempty_items d \<Longrightarrow> m \<noteq> {} \<Longrightarrow> nonempty_items (fst (closure_for ts m d q))"
  by (induction ts arbitrary: d q) (auto simp: Let_def nonempty_items_set)

lemma closure_loop_nonempty_all:
  assumes "closure_loop h q d = Some r"
  shows "\<forall>d' h'. nonempty_items d \<longrightarrow> r = Inr (d', h') \<longrightarrow> nonempty_items d'"
proof (rule closure_loop.raw_induct
    [where P = "\<lambda>h q d r. \<forall>d' h'. nonempty_items d \<longrightarrow> r = Inr (d', h') \<longrightarrow> nonempty_items d'",
      OF _ assms])
  fix f h q d r
  assume IH: "\<And>h q d y. f h q d = Some y \<Longrightarrow>
                \<forall>d' h'. nonempty_items d \<longrightarrow> y = Inr (d', h') \<longrightarrow> nonempty_items d'"
    and body: "(case q of
        [] \<Rightarrow> Some (Inr (d, h))
      | state # queue1 \<Rightarrow>
          (case dict_get d state of
             None \<Rightarrow> Some (Inl KeyError)
           | Some indexes_set \<Rightarrow>
               if State_contains h state EPSILON then
                 (case State_getitem h state EPSILON of
                    (ts, h1) \<Rightarrow>
                      (case closure_for ts indexes_set d queue1 of
                         (state_dict1, queue2) \<Rightarrow> f h1 queue2 state_dict1))
               else f h queue1 d)) = Some r"
  show "\<forall>d' h'. nonempty_items d \<longrightarrow> r = Inr (d', h') \<longrightarrow> nonempty_items d'"
  proof (intro allI impI)
    fix d' h' assume ne: "nonempty_items d" and r: "r = Inr (d', h')"
    show "nonempty_items d'"
    proof (cases q)
      case Nil
      with body r ne show ?thesis by simp
    next
      case (Cons s rest)
      with body r obtain m where m: "dict_get d s = Some m"
        by (cases "dict_get d s") auto
      from ne m have m0: "m \<noteq> {}" by (rule nonempty_items_get)
      show ?thesis
      proof (cases "State_contains h s EPSILON")
        case True
        obtain d1 q1 where cf: "closure_for (targets h s EPSILON) m d rest = (d1, q1)"
          by (cases "closure_for (targets h s EPSILON) m d rest")
        with closure_for_nonempty [OF ne m0, of "targets h s EPSILON" rest]
        have "nonempty_items d1" by simp
        moreover from body Cons m True cf have "f h q1 d1 = Some r"
          by (simp add: getitem_guarded)
        ultimately show ?thesis using IH r by blast
      next
        case False
        with body Cons m have "f h rest d = Some r" by simp
        with IH ne r show ?thesis by blast
      qed
    qed
  qed
qed

lemma closure_returns:
  assumes "acyclic (epsilon_edges h)"
  shows "\<exists>d'. Automaton_closure h d = Some (Inr (d', h)) \<and>
              (nonempty_items d \<longrightarrow> nonempty_items d')"
proof -
  have "finite (epsilon_edges h)"
    by (simp add: epsilon_edges_def)
  from this assms have "wf ((epsilon_edges h)\<inverse>)"
    by (rule finite_acyclic_wf_converse)
  from closure_loop_returns [OF this closure_inv_init]
  obtain d' where d': "closure_loop h (dict_keys d) d = Some (Inr (d', h))"
    by blast
  with closure_loop_nonempty_all [OF d'] show ?thesis
    by (auto simp: Automaton_closure_def)
qed

lemma trans_for_nonempty:
  "nonempty_items r \<Longrightarrow> m \<noteq> {} \<Longrightarrow> nonempty_items (trans_for ts m r)"
  by (induction ts arbitrary: r) (auto simp: Let_def nonempty_items_set)

lemma trans_loop_nonempty:
  "nonempty_items items \<Longrightarrow> nonempty_items r \<Longrightarrow>
   nonempty_items (fst (trans_loop h items letter r))"
proof (induction h items letter r rule: trans_loop.induct)
  case (1 h letter r)
  then show ?case by simp
next
  case (2 h state m rest letter r)
  from "2.prems"(1) have m: "m \<noteq> {}" and rest: "nonempty_items rest"
    by (auto simp: nonempty_items_def)
  from "2.prems"(2) m have "nonempty_items (trans_for ts m r)" for ts
    by (rule trans_for_nonempty)
  with 2 rest show ?case
    by (auto simp: Let_def getitem_guarded)
qed

lemma Automaton_trans_returns:
  "nonempty_items d \<Longrightarrow>
   \<exists>d'. Automaton_trans h d letter = (d', h) \<and> nonempty_items d'"
  using trans_loop_nonempty [of d "[]" h letter] trans_loop_heap [of h d letter "[]"]
  by (cases "trans_loop h d letter []") (auto simp: Automaton_trans_def nonempty_items_def)

lemma Automaton_trans_total: "\<exists>d'. Automaton_trans h d letter = (d', h)"
  using trans_loop_heap [of h d letter "[]"]
  by (cases "trans_loop h d letter []") (auto simp: Automaton_trans_def)

lemma test_word_loop_returns:
  assumes "acyclic (epsilon_edges h)"
  shows "\<exists>d'. test_word_loop h word d = Some (Inr (d', h))"
proof (induction word arbitrary: d)
  case Nil
  then show ?case by simp
next
  case (Cons c word)
  from Automaton_trans_total obtain d1 where t: "Automaton_trans h d [c] = (d1, h)" by blast
  from closure_returns [OF assms] obtain d2
    where c: "Automaton_closure h d1 = Some (Inr (d2, h))" by blast
  from Cons [of d2] t c show ?case
    by (simp add: bind_result_def)
qed

lemma test_word_returns:
  assumes "acyclic (epsilon_edges h)"
  shows "\<exists>accepted. test_word h a word = Some (Inr (accepted, h))"
proof -
  from closure_returns [OF assms] obtain d
    where c: "Automaton_closure h [(initial a, {0})] = Some (Inr (d, h))" by blast
  from test_word_loop_returns [OF assms] obtain d'
    where l: "test_word_loop h word d = Some (Inr (d', h))" by blast
  from c l show ?thesis
    by (simp add: test_word_def bind_result_def)
qed

lemma matching_round_returns:
  assumes ac: "acyclic (epsilon_edges h)" and ne: "nonempty_items d"
  shows "\<exists>d' r. matching_round h a text i c d = Some (Inr (d', r, h)) \<and> nonempty_items d'"
proof -
  from Automaton_trans_returns [OF ne] obtain d1
    where t: "Automaton_trans h d [c] = (d1, h)" and n1: "nonempty_items d1" by blast
  let ?d2 = "if dict_in (initial a) d1 then
               dict_set d1 (initial a) (the (dict_get d1 (initial a)) \<union> {i})
             else dict_set d1 (initial a) {i}"
  from n1 have n2: "nonempty_items ?d2"
    by (auto simp: nonempty_items_set)
  from closure_returns [OF ac, of ?d2] n2 obtain d3
    where c: "Automaton_closure h ?d2 = Some (Inr (d3, h))" and n3: "nonempty_items d3"
    by blast
  show ?thesis
  proof (cases "dict_in (final a) d3")
    case False
    with t c n3 show ?thesis
      by (simp add: matching_round_def bind_result_def Let_def)
  next
    case True
    then obtain m where m: "dict_get d3 (final a) = Some m"
      by (auto simp: dict_in_iff)
    from n3 m have m0: "m \<noteq> {}" by (rule nonempty_items_get)
    from test_word_returns [OF ac] obtain accepted
      where w: "test_word h a (py_slice text (Min m + 1) (i + 1)) = Some (Inr (accepted, h))"
      by blast
    from t c n3 True m m0 w show ?thesis
      by (simp add: matching_round_def bind_result_def Let_def)
  qed
qed

lemma matching_loop_returns:
  assumes ac: "acyclic (epsilon_edges h)"
  shows "nonempty_items d \<Longrightarrow> \<exists>occ'. matching_loop h a text i rest d occ = Some (Inr (occ', h))"
proof (induction rest arbitrary: i d occ)
  case Nil
  then show ?case by simp
next
  case (Cons c rest)
  from matching_round_returns [OF ac Cons.prems] obtain d1 r
    where round: "matching_round h a text i c d = Some (Inr (d1, r, h))"
      and n1: "nonempty_items d1" by blast
  from Cons.IH [OF n1] round show ?case
    by (simp add: bind_result_def)
qed

lemma matching_returns:
  assumes ac: "acyclic (epsilon_edges h)"
  shows "\<exists>spans. matching h a text = Some (Inr (spans, h))"
proof -
  have "nonempty_items [(initial a, {- 1})]"
    by (simp add: nonempty_items_def)
  with closure_returns [OF ac, of "[(initial a, {- 1})]"] obtain d
    where c: "Automaton_closure h [(initial a, {- 1})] = Some (Inr (d, h))"
      and n: "nonempty_items d" by blast
  from matching_loop_returns [OF ac n] obtain occ
    where l: "matching_loop h a text 0 text d [] = Some (Inr (occ, h))" by blast
  from c l show ?thesis
    by (simp add: matching_def Automaton_matching_helper_def bind_result_def)
qed

text \<open>
  Claim C9: the matching operations leave the table of every state unchanged. Every read
  \<open>state[label]\<close> of the simulation is guarded by \<open>label in state\<close>, so that the
  \<open>defaultdict\<close> never inserts a key: when \<open>matching\<close> or \<open>test_word\<close> returns,
  the heap it leaves behind is the heap it started from, for every heap, fragment and
  input; and on a heap whose epsilon edges have no cycle both return, without an exception.
\<close>

theorem C9_matching_reads_only:
  "(\<forall>spans h'. matching h a text = Some (Inr (spans, h')) \<longrightarrow> h' = h) \<and>
   (\<forall>accepted h'. test_word h a word = Some (Inr (accepted, h')) \<longrightarrow> h' = h) \<and>
   (acyclic (epsilon_edges h) \<longrightarrow>
      (\<exists>spans. matching h a text = Some (Inr (spans, h))) \<and>
      (\<exists>accepted. test_word h a word = Some (Inr (accepted, h))))"
proof (intro conjI allI impI)
  fix spans h' assume "matching h a text = Some (Inr (spans, h'))"
  then show "h' = h"
    by (auto simp: matching_def Automaton_matching_helper_def bind_result_Inr
        dest!: Automaton_closure_heap matching_loop_heap)
next
  fix accepted h' assume "test_word h a word = Some (Inr (accepted, h'))"
  then show "h' = h"
    by (rule test_word_heap)
next
  assume "acyclic (epsilon_edges h)"
  then show "\<exists>spans. matching h a text = Some (Inr (spans, h))"
    by (rule matching_returns)
next
  assume "acyclic (epsilon_edges h)"
  then show "\<exists>accepted. test_word h a word = Some (Inr (accepted, h))"
    by (rule test_word_returns)
qed


theorem C9_matching_reads_only_witness:
  "acyclic (epsilon_edges [[(''a'', [1])], []]) \<and>
   matching [[(''a'', [1])], []] \<lparr>initial = 0, final = 1, enumeration_proper = False\<rparr> ''aa'' =
     Some (Inr ([(0, 1), (1, 2)], [[(''a'', [1])], []])) \<and>
   test_word [[(''a'', [1])], []] \<lparr>initial = 0, final = 1, enumeration_proper = False\<rparr> ''a'' =
     Some (Inr (True, [[(''a'', [1])], []]))"
proof -
  let ?h = "[[(''a'', [1::nat])], []]"
  let ?a = "\<lparr>initial = 0, final = 1, enumeration_proper = False\<rparr>"
  have "epsilon_edges ?h = {}"
    by code_simp
  then have ac: "acyclic (epsilon_edges ?h)"
    by (simp add: acyclic_def)
  from C9_matching_reads_only [of ?h ?a "''aa''" "''a''"] ac
  obtain spans accepted
    where s: "matching ?h ?a ''aa'' = Some (Inr (spans, ?h))"
      and w: "test_word ?h ?a ''a'' = Some (Inr (accepted, ?h))"
    by blast
  have "fst (projr (the (matching ?h ?a ''aa''))) = [(0, 1), (1, 2)]"
    by code_simp
  with s have s': "spans = [(0, 1), (1, 2)]"
    by simp
  have "fst (projr (the (test_word ?h ?a ''a'')))"
    by code_simp
  with w have w': "accepted"
    by simp
  from ac s w s' w' show ?thesis
    by simp
qed

section \<open>The order and the starts of the spans\<close>

lemma occurrences_after_Nil: "occurrences_after occ [] = occ"
  by (simp add: occurrences_after_def)

lemma occurrences_after_Cons:
  "occurrences_after occ ((s, e) # recs) = occurrences_after (dict_set occ s e) recs"
  by (simp add: occurrences_after_def)

lemma occurrences_after_snoc:
  "occurrences_after occ (recs @ [(s, e)]) = dict_set (occurrences_after occ recs) s e"
  by (simp add: occurrences_after_def)

lemma keys_dict_set:
  "map fst (dict_set d k v) = (if k \<in> set (map fst d) then map fst d else map fst d @ [k])"
  by (induction d) force+

lemma dict_set_new: "k \<notin> set (map fst d) \<Longrightarrow> dict_set d k v = d @ [(k, v)]"
  by (induction d) auto

lemma distinct_dict_set: "distinct (map fst d) \<Longrightarrow> distinct (map fst (dict_set d k v))"
  by (simp add: keys_dict_set)

lemma first_occurrences_snoc:
  "first_occurrences (xs @ [x]) =
     (if x \<in> set xs then first_occurrences xs else first_occurrences xs @ [x])"
  by (simp add: first_occurrences_def)

lemma set_first_occurrences: "set (first_occurrences xs) = set xs"
  by (simp add: first_occurrences_def)

lemma first_occurrences_distinct: "distinct xs \<Longrightarrow> first_occurrences xs = xs"
  by (simp add: first_occurrences_def distinct_remdups_id)

lemma occurrences_after_distinct:
  "distinct (map fst occ) \<Longrightarrow> distinct (map fst (occurrences_after occ recs))"
  by (induction recs rule: rev_induct)
     (auto simp: occurrences_after_Nil occurrences_after_snoc distinct_dict_set)

lemma occurrences_after_keys:
  "distinct (map fst occ) \<Longrightarrow>
   map fst (occurrences_after occ recs) = first_occurrences (map fst occ @ map fst recs)"
proof (induction recs rule: rev_induct)
  case Nil
  then show ?case
    by (simp add: occurrences_after_Nil first_occurrences_distinct)
next
  case (snoc r recs)
  obtain s e where r: "r = (s, e)" by (cases r)
  have "set (map fst (occurrences_after occ recs)) = set (map fst occ @ map fst recs)"
    using snoc by (simp add: set_first_occurrences)
  then show ?case
    using snoc first_occurrences_snoc [of "map fst occ @ map fst recs" s]
    by (simp add: r occurrences_after_snoc keys_dict_set)
qed

lemma occurrences_after_map_of:
  "map_of (occurrences_after occ recs) = map_of occ ++ map_of (rev recs)"
proof (induction recs rule: rev_induct)
  case Nil
  then show ?case by (simp add: occurrences_after_Nil)
next
  case (snoc r recs)
  obtain s e where r: "r = (s, e)" by (cases r)
  show ?case
    by (auto simp: r occurrences_after_snoc map_of_dict_set snoc fun_eq_iff map_add_def)
qed

lemma occurrences_after_fresh:
  "distinct (map fst occ @ map fst recs) \<Longrightarrow> occurrences_after occ recs = occ @ recs"
proof (induction recs arbitrary: occ)
  case Nil
  then show ?case by (simp add: occurrences_after_Nil)
next
  case (Cons r recs)
  obtain s e where r: "r = (s, e)" by (cases r)
  from Cons.prems have new: "s \<notin> set (map fst occ)" by (auto simp: r)
  from Cons.prems have "distinct (map fst (occ @ [(s, e)]) @ map fst recs)" by (auto simp: r)
  from Cons.IH [OF this] show ?case
    by (simp add: r occurrences_after_Cons dict_set_new [OF new])
qed

lemma last_recording_is_largest:
  "sorted_wrt (<) (map snd recs) \<Longrightarrow> map_of (rev recs) s = Some e \<Longrightarrow>
   (s, e') \<in> set recs \<Longrightarrow> e' \<le> (e::int)"
proof (induction recs rule: rev_induct)
  case Nil
  then show ?case by simp
next
  case (snoc r recs)
  obtain k v where r: "r = (k, v)" by (cases r)
  from snoc.prems(1) have sorted: "sorted_wrt (<) (map snd recs)"
    and below: "\<forall>x \<in> set recs. snd x < v"
    by (auto simp: r sorted_wrt_append)
  show ?case
  proof (cases "s = k")
    case True
    with snoc.prems(2) have "e = v" by (simp add: r)
    with snoc.prems(3) below show ?thesis by (auto simp: r)
  next
    case False
    with snoc.prems have "map_of (rev recs) s = Some e" "(s, e') \<in> set recs"
      by (auto simp: r)
    with snoc.IH sorted show ?thesis by blast
  qed
qed

lemma items_of_distinct_dict:
  "distinct (map fst d) \<Longrightarrow> map (\<lambda>k. (k, the (dict_get d k))) (dict_keys d) = d"
proof (induction d)
  case Nil
  then show ?case by (simp add: dict_keys_def)
next
  case (Cons p d)
  obtain k v where p: "p = (k, v)" by (cases p)
  from Cons.prems have "k \<notin> fst ` set d" by (simp add: p)
  then have "map (\<lambda>x. (x, the (dict_get ((k, v) # d) x))) (map fst d) =
             map (\<lambda>x. (x, the (dict_get d x))) (map fst d)"
    by (auto simp: dict_get_def)
  with Cons show ?case
    by (simp add: p dict_keys_def dict_get_def)
qed

lemma matching_round_end:
  "matching_round h a text i c d = Some (Inr (d', Some (s, e), h')) \<Longrightarrow> e = i + 1"
  by (auto simp: matching_round_def bind_result_Inr Let_def split: prod.splits if_splits)

lemma matching_loop_recordings:
  "matching_loop h a text i rest d occ = Some (Inr (occ', h')) \<Longrightarrow>
   \<exists>recs. recordings_loop h a text i rest d = Some (Inr recs) \<and>
          occ' = occurrences_after occ recs"
proof (induction rest arbitrary: h i d occ)
  case Nil
  then show ?case by (simp add: occurrences_after_Nil)
next
  case (Cons c rest)
  from Cons.prems obtain d1 r h1
    where round: "matching_round h a text i c d = Some (Inr (d1, r, h1))"
      and loop: "matching_loop h1 a text (i + 1) rest d1
                   (case r of None \<Rightarrow> occ | Some (s, e) \<Rightarrow> dict_set occ s e) = Some (Inr (occ', h'))"
    by (auto simp: bind_result_Inr)
  from Cons.IH [OF loop] obtain recs
    where recs: "recordings_loop h1 a text (i + 1) rest d1 = Some (Inr recs)"
      and occ': "occ' = occurrences_after
                   (case r of None \<Rightarrow> occ | Some (s, e) \<Rightarrow> dict_set occ s e) recs"
    by blast
  show ?case
  proof (cases r)
    case None
    with round recs occ' show ?thesis
      by (simp add: bind_result_def)
  next
    case (Some p)
    obtain s e where p: "p = (s, e)" by (cases p)
    with Some round recs occ' show ?thesis
      by (simp add: bind_result_def occurrences_after_Cons)
  qed
qed

lemma recordings_loop_sorted:
  "recordings_loop h a text i rest d = Some (Inr recs) \<Longrightarrow>
   sorted_wrt (<) (map snd recs) \<and> (\<forall>r \<in> set recs. i < snd r)"
proof (induction rest arbitrary: h i d recs)
  case Nil
  then show ?case by simp
next
  case (Cons c rest)
  from Cons.prems obtain d1 r h1 later
    where round: "matching_round h a text i c d = Some (Inr (d1, r, h1))"
      and later: "recordings_loop h1 a text (i + 1) rest d1 = Some (Inr later)"
      and recs: "recs = (case r of None \<Rightarrow> [] | Some x \<Rightarrow> [x]) @ later"
    by (auto simp: bind_result_Inr)
  from Cons.IH [OF later]
  have sorted: "sorted_wrt (<) (map snd later)" and above: "\<forall>x \<in> set later. i + 1 < snd x"
    by blast+
  show ?case
  proof (cases r)
    case None
    with recs sorted above show ?thesis by auto
  next
    case (Some p)
    obtain s e where p: "p = (s, e)" by (cases p)
    from round Some p have "e = i + 1"
      by (auto dest: matching_round_end)
    with recs Some p sorted above show ?thesis by auto
  qed
qed

lemma matching_recordings:
  assumes "matching h a text = Some (Inr (spans, h'))"
  shows "\<exists>recs. recordings h a text = Some (Inr recs) \<and>
           spans = occurrences_after [] recs \<and> sorted_wrt (<) (map snd recs)"
proof -
  from assms obtain d h1 occ
    where cl: "Automaton_closure h [(initial a, {- 1})] = Some (Inr (d, h1))"
      and loop: "matching_loop h1 a text 0 text d [] = Some (Inr (occ, h'))"
      and spans: "spans = map (\<lambda>start. (start, the (dict_get occ start))) (dict_keys occ)"
    by (auto simp: matching_def Automaton_matching_helper_def bind_result_Inr)
  from matching_loop_recordings [OF loop] obtain recs
    where recs: "recordings_loop h1 a text 0 text d = Some (Inr recs)"
      and occ: "occ = occurrences_after [] recs"
    by blast
  have "distinct (map fst occ)"
    unfolding occ by (rule occurrences_after_distinct) simp
  with spans have "spans = occ"
    by (simp add: items_of_distinct_dict)
  moreover from cl recs have "recordings h a text = Some (Inr recs)"
    by (simp add: recordings_def bind_result_def)
  moreover from recordings_loop_sorted [OF recs] have "sorted_wrt (<) (map snd recs)"
    by blast
  ultimately show ?thesis
    using occ by blast
qed


text \<open>
  Claim C8 says that the spans are in the order of their ends. The pattern \<open>a(ac)?\<close>
  on the text \<open>aac\<close> records the start 0 with the end 1, the start 1 with the end 2,
  and then the start 0 again with the end 3, which replaces the end of the first entry:
  the ends of the list are 3 and 2.
\<close>

theorem C8_ends_not_increasing:
  "find_occurrences ''a(ac)?'' ''aac'' = Some (Inr [(0, 3), (1, 2)]) \<and>
   \<not> sorted (map snd [(0::int, 3::int), (1, 2)])"
  by code_simp

text \<open>
  Claim C8, amended: for every fragment and every text, the list of spans holds the
  starts in the order in which the scan first recorded them, each with the last end that
  was recorded for it; the scan records its assignments in strictly increasing order of
  their ends. So a start that is recorded again keeps its earlier place in the list with
  the later end, and when no start is recorded twice, the list of spans is the list of
  the assignments, in strictly increasing order of the ends.
\<close>

theorem C8_spans_in_recording_order:
  assumes "matching h a text = Some (Inr (spans, h'))"
  shows "\<exists>recs. recordings h a text = Some (Inr recs) \<and>
           sorted_wrt (<) (map snd recs) \<and>
           map fst spans = first_occurrences (map fst recs) \<and>
           spans = map (\<lambda>start. (start, the (map_of (rev recs) start)))
                     (first_occurrences (map fst recs)) \<and>
           (distinct (map fst recs) \<longrightarrow> spans = recs \<and> sorted_wrt (<) (map snd spans))"
proof -
  from matching_recordings [OF assms] obtain recs
    where recs: "recordings h a text = Some (Inr recs)"
      and spans: "spans = occurrences_after [] recs"
      and sorted: "sorted_wrt (<) (map snd recs)"
    by blast
  have d: "distinct (map fst spans)"
    unfolding spans by (rule occurrences_after_distinct) simp
  have k: "map fst spans = first_occurrences (map fst recs)"
    unfolding spans using occurrences_after_keys [of "[]" recs] by simp
  have m: "map_of spans = map_of (rev recs)"
    unfolding spans by (simp add: occurrences_after_map_of)
  from items_of_distinct_dict [OF d]
  have "spans = map (\<lambda>start. (start, the (map_of spans start))) (map fst spans)"
    by (simp add: dict_get_def dict_keys_def)
  then have e: "spans = map (\<lambda>start. (start, the (map_of (rev recs) start)))
                          (first_occurrences (map fst recs))"
    unfolding m k .
  have f: "spans = recs" if "distinct (map fst recs)"
    using occurrences_after_fresh [of "[]" recs] that spans by simp
  from f have g: "distinct (map fst recs) \<longrightarrow> spans = recs \<and> sorted_wrt (<) (map snd spans)"
    using sorted by simp
  from recs sorted k e g
  have "recordings h a text = Some (Inr recs) \<and>
        sorted_wrt (<) (map snd recs) \<and>
        map fst spans = first_occurrences (map fst recs) \<and>
        spans = map (\<lambda>start. (start, the (map_of (rev recs) start)))
                  (first_occurrences (map fst recs)) \<and>
        (distinct (map fst recs) \<longrightarrow> spans = recs \<and> sorted_wrt (<) (map snd spans))"
    by (intro conjI)
  then show ?thesis ..
qed

theorem C8_spans_in_recording_order_witness:
  "matching [[(''a'', [1])], []] \<lparr>initial = 0, final = 1, enumeration_proper = False\<rparr> ''aa'' =
     Some (Inr ([(0, 1), (1, 2)], [[(''a'', [1])], []])) \<and>
   recordings [[(''a'', [1])], []] \<lparr>initial = 0, final = 1, enumeration_proper = False\<rparr> ''aa'' =
     Some (Inr [(0, 1), (1, 2)]) \<and>
   distinct (map fst [(0::int, 1::int), (1, 2)]) \<and>
   sorted_wrt (<) (map snd [(0::int, 1::int), (1, 2)]) \<and>
   matching [[(''a'', [1])], [([], [8])], [(''a'', [3])], [([], [4])], [(''c'', [5])],
             [([], [9])], [([], [7])], [([], [9])], [([], [2, 6])], []]
     \<lparr>initial = 0, final = 9, enumeration_proper = False\<rparr> ''aac'' =
     Some (Inr ([(0, 3), (1, 2)],
       [[(''a'', [1])], [([], [8])], [(''a'', [3])], [([], [4])], [(''c'', [5])],
        [([], [9])], [([], [7])], [([], [9])], [([], [2, 6])], []])) \<and>
   recordings [[(''a'', [1])], [([], [8])], [(''a'', [3])], [([], [4])], [(''c'', [5])],
               [([], [9])], [([], [7])], [([], [9])], [([], [2, 6])], []]
     \<lparr>initial = 0, final = 9, enumeration_proper = False\<rparr> ''aac'' =
     Some (Inr [(0, 1), (1, 2), (0, 3)]) \<and>
   [(0::int, 3::int), (1, 2)] =
     map (\<lambda>start. (start, the (map_of (rev [(0::int, 1::int), (1, 2), (0, 3)]) start)))
       (first_occurrences (map fst [(0::int, 1::int), (1, 2), (0, 3)]))"
proof -
  let ?h = "[[(''a'', [1::nat])], []]"
  let ?a = "\<lparr>initial = 0, final = 1, enumeration_proper = False\<rparr>"
  let ?g = "[[(''a'', [1::nat])], [([], [8])], [(''a'', [3])], [([], [4])], [(''c'', [5])],
             [([], [9])], [([], [7])], [([], [9])], [([], [2, 6])], []]"
  let ?b = "\<lparr>initial = 0, final = 9, enumeration_proper = False\<rparr>"
  have m: "matching ?h ?a ''aa'' = Some (Inr ([(0, 1), (1, 2)], ?h))"
    by code_simp
  have r: "recordings ?h ?a ''aa'' = Some (Inr [(0, 1), (1, 2)])"
    by code_simp
  have d: "distinct (map fst [(0::int, 1::int), (1, 2)])"
    by simp
  from C8_spans_in_recording_order [OF m] obtain recs
    where c: "recordings ?h ?a ''aa'' = Some (Inr recs) \<and>
        sorted_wrt (<) (map snd recs) \<and>
        map fst [(0::int, 1::int), (1, 2)] = first_occurrences (map fst recs) \<and>
        [(0::int, 1::int), (1, 2)] =
          map (\<lambda>start. (start, the (map_of (rev recs) start)))
            (first_occurrences (map fst recs)) \<and>
        (distinct (map fst recs) \<longrightarrow>
           [(0::int, 1::int), (1, 2)] = recs \<and>
           sorted_wrt (<) (map snd [(0::int, 1::int), (1, 2)]))"
    ..
  from c have c1: "recordings ?h ?a ''aa'' = Some (Inr recs)"
    by (rule conjunct1)
  from c have c5: "distinct (map fst recs) \<longrightarrow>
           [(0::int, 1::int), (1, 2)] = recs \<and>
           sorted_wrt (<) (map snd [(0::int, 1::int), (1, 2)])"
    by (elim conjE)
  from c1 r have "recs = [(0, 1), (1, 2)]"
    by simp
  with d have "distinct (map fst recs)"
    by (simp only:)
  with c5 have s: "sorted_wrt (<) (map snd [(0::int, 1::int), (1, 2)])"
    by (elim impE conjE)
  have m2: "matching ?g ?b ''aac'' = Some (Inr ([(0, 3), (1, 2)], ?g))"
    by code_simp
  have r2: "recordings ?g ?b ''aac'' = Some (Inr [(0, 1), (1, 2), (0, 3)])"
    by code_simp
  from C8_spans_in_recording_order [OF m2] obtain recs2
    where c2: "recordings ?g ?b ''aac'' = Some (Inr recs2) \<and>
        sorted_wrt (<) (map snd recs2) \<and>
        map fst [(0::int, 3::int), (1, 2)] = first_occurrences (map fst recs2) \<and>
        [(0::int, 3::int), (1, 2)] =
          map (\<lambda>start. (start, the (map_of (rev recs2) start)))
            (first_occurrences (map fst recs2)) \<and>
        (distinct (map fst recs2) \<longrightarrow>
           [(0::int, 3::int), (1, 2)] = recs2 \<and>
           sorted_wrt (<) (map snd [(0::int, 3::int), (1, 2)]))"
    ..
  from c2 have recs2: "recordings ?g ?b ''aac'' = Some (Inr recs2)"
    by (rule conjunct1)
  from c2 have e: "[(0::int, 3::int), (1, 2)] =
                map (\<lambda>start. (start, the (map_of (rev recs2) start)))
                  (first_occurrences (map fst recs2))"
    by (elim conjE)
  from recs2 r2 have "recs2 = [(0, 1), (1, 2), (0, 3)]"
    by simp
  with e have e2: "[(0::int, 3::int), (1, 2)] =
     map (\<lambda>start. (start, the (map_of (rev [(0::int, 1::int), (1, 2), (0, 3)]) start)))
       (first_occurrences (map fst [(0::int, 1::int), (1, 2), (0, 3)]))"
    by (simp only:)
  from m r d s m2 r2 e2 show ?thesis
    by (intro conjI)
qed

text \<open>
  Claim C10: the list of spans has one span for each start; the starts are in the order
  in which they were first recorded; and the end of a span is the largest end that was
  recorded for its start.
\<close>

theorem C10_one_span_per_start:
  assumes "matching h a text = Some (Inr (spans, h'))"
  shows "\<exists>recs. recordings h a text = Some (Inr recs) \<and>
           distinct (map fst spans) \<and>
           map fst spans = first_occurrences (map fst recs) \<and>
           (\<forall>(s, e) \<in> set spans. (s, e) \<in> set recs \<and> (\<forall>e'. (s, e') \<in> set recs \<longrightarrow> e' \<le> e))"
proof -
  from matching_recordings [OF assms] obtain recs
    where recs: "recordings h a text = Some (Inr recs)"
      and spans: "spans = occurrences_after [] recs"
      and sorted: "sorted_wrt (<) (map snd recs)"
    by blast
  have d: "distinct (map fst spans)"
    unfolding spans by (rule occurrences_after_distinct) simp
  have k: "map fst spans = first_occurrences (map fst recs)"
    unfolding spans using occurrences_after_keys [of "[]" recs] by simp
  have m: "map_of spans = map_of (rev recs)"
    unfolding spans by (simp add: occurrences_after_map_of)
  have "(s, e) \<in> set recs \<and> (\<forall>e'. (s, e') \<in> set recs \<longrightarrow> e' \<le> e)"
    if "(s, e) \<in> set spans" for s e
  proof -
    from that d have "map_of spans s = Some e" by simp
    with m have last: "map_of (rev recs) s = Some e" by simp
    then have "(s, e) \<in> set recs"
      by (auto dest: map_of_SomeD)
    with last sorted show ?thesis
      by (blast intro: last_recording_is_largest)
  qed
  with recs d k show ?thesis by blast
qed

theorem C10_one_span_per_start_witness:
  "matching [[(''a'', [1])], [([], [8])], [(''a'', [3])], [([], [4])], [(''c'', [5])], [([], [9])], [([], [7])], [([], [9])], [([], [2, 6])], []]
     \<lparr>initial = 0, final = 9, enumeration_proper = False\<rparr> ''aac'' =
     Some (Inr ([(0, 3), (1, 2)], [[(''a'', [1])], [([], [8])], [(''a'', [3])], [([], [4])], [(''c'', [5])], [([], [9])], [([], [7])], [([], [9])], [([], [2, 6])], []])) \<and>
   recordings [[(''a'', [1])], [([], [8])], [(''a'', [3])], [([], [4])], [(''c'', [5])], [([], [9])], [([], [7])], [([], [9])], [([], [2, 6])], []]
     \<lparr>initial = 0, final = 9, enumeration_proper = False\<rparr> ''aac'' =
     Some (Inr [(0, 1), (1, 2), (0, 3)]) \<and>
   distinct (map fst [(0::int, 3::int), (1, 2)]) \<and>
   map fst [(0::int, 3::int), (1, 2)] = first_occurrences (map fst [(0::int, 1::int), (1, 2), (0, 3)])"
proof -
  let ?h = "[[(''a'', [1::nat])], [([], [8])], [(''a'', [3])], [([], [4])], [(''c'', [5])], [([], [9])], [([], [7])], [([], [9])], [([], [2, 6])], []]"
  let ?a = "\<lparr>initial = 0, final = 9, enumeration_proper = False\<rparr>"
  have m: "matching ?h ?a ''aac'' = Some (Inr ([(0, 3), (1, 2)], ?h))"
    by code_simp
  have r: "recordings ?h ?a ''aac'' = Some (Inr [(0, 1), (1, 2), (0, 3)])"
    by code_simp
  from C10_one_span_per_start [OF m] obtain recs
    where recs: "recordings ?h ?a ''aac'' = Some (Inr recs)"
      and d: "distinct (map fst [(0::int, 3::int), (1, 2)])"
      and k: "map fst [(0::int, 3::int), (1, 2)] = first_occurrences (map fst recs)"
    by blast
  from recs r have "recs = [(0, 1), (1, 2), (0, 3)]"
    by simp
  with k have "map fst [(0::int, 3::int), (1, 2)] =
      first_occurrences (map fst [(0::int, 1::int), (1, 2), (0, 3)])"
    by (simp only:)
  with m r d show ?thesis
    by (intro conjI)
qed

end
